theory Spec2Isabelle
  imports Complex_Main "HOL-Library.Word" "HOL-Library.Sublist"
begin

section \<open>Data model of the transparent price cache\<close>

text \<open>
  The development follows \<^verbatim>\<open>cache.go\<close>. The repository holds two more revisions of
  that file: one in which \<^verbatim>\<open>GetPriceFor\<close> deletes an expired item (modelled below as
  \<open>GetPriceFor_purging\<close> and \<open>GetPricesFor_purging\<close>), and one that differs from \<^verbatim>\<open>cache.go\<close> in names only
  (\<^verbatim>\<open>c.getExpiration()\<close> for \<^verbatim>\<open>planExpiration(c.maxAge)\<close>, a named struct for the
  elements of the channel).

  A Go \<^verbatim>\<open>error\<close> is identified with the text its \<^verbatim>\<open>Error()\<close> method yields. Prices
  are \<^verbatim>\<open>float64\<close> in the source; the cache only stores and copies them and writes the
  literal \<^verbatim>\<open>0\<close> on failure, it never computes with them, so they are taken as reals.
  Instants and durations are \<^verbatim>\<open>int64\<close> nanosecond counts and are modelled as 64-bit
  words read in two's complement. The calls of \<^verbatim>\<open>log.Printf\<close> only write to the log and
  are left out.
\<close>

type_synonym error = string

text \<open>
  The interface \<^verbatim>\<open>PriceService\<close>: the collaborator may answer differently each time it is
  asked, so its answer depends on the number of calls made before and on the item code.
  As in Go the answer is a pair of a price and an optional error.
\<close>

type_synonym PriceService = "nat \<Rightarrow> string \<Rightarrow> real \<times> error option"

record ItemPriceCache =
  Price :: real
  Expiration :: "64 word"

text \<open>
  The struct \<^verbatim>\<open>TransparentCache\<close>. The field \<open>invoked\<close> is not in the source: it is the
  journal of the calls made to the collaborator (item code and answer, oldest first), kept
  so that statements can speak about whether the collaborator was asked.
\<close>

record TransparentCache =
  actualPriceService :: PriceService
  maxAge :: "64 word"
  prices :: "string \<rightharpoonup> ItemPriceCache"
  invoked :: "(string \<times> real \<times> error option) list"

text \<open>\<^verbatim>\<open>time.Now().UnixNano() > item.Expiration\<close>, a signed comparison; \<open>now\<close> is the
  reading of the clock.\<close>

definition IsExpired :: "64 word \<Rightarrow> ItemPriceCache \<Rightarrow> bool" where
  "IsExpired now item = (Expiration item <s now)"

text \<open>\<^verbatim>\<open>time.Now().Add(duration).UnixNano()\<close>: the sum of the clock reading and the
  duration as an \<^verbatim>\<open>int64\<close>, which wraps around when the instant is not representable.\<close>

definition planExpiration :: "64 word \<Rightarrow> 64 word \<Rightarrow> 64 word" where
  "planExpiration now duration = now + duration"

definition NewTransparentCache :: "PriceService \<Rightarrow> 64 word \<Rightarrow> TransparentCache" where
  "NewTransparentCache svc age =
     \<lparr>actualPriceService = svc, maxAge = age, prices = Map.empty, invoked = []\<rparr>"

text \<open>The call \<^verbatim>\<open>c.actualPriceService.GetPriceFor(code)\<close>: the answer, and the cache with
  the call entered in the journal.\<close>

definition callService :: "string \<Rightarrow> TransparentCache \<Rightarrow> (real \<times> error option) \<times> TransparentCache" where
  "callService code c =
     (let r = actualPriceService c (length (invoked c)) code
      in (r, c\<lparr>invoked := invoked c @ [(code, r)]\<rparr>))"

section \<open>Single-item retrieval\<close>

text \<open>
  Lines 56 to 68 of \<^verbatim>\<open>GetPriceFor\<close>, reached when the item is absent or expired: ask the
  collaborator; on an error return \<^verbatim>\<open>0\<close> and the wrapped error, otherwise store the price
  with its expiration and return it. \<open>now\<close> is the clock reading of \<^verbatim>\<open>planExpiration\<close>.
\<close>

definition fetchPrice :: "64 word \<Rightarrow> string \<Rightarrow> TransparentCache \<Rightarrow> (real \<times> error option) \<times> TransparentCache" where
  "fetchPrice now itemCode c =
     (case callService itemCode c of
        ((price, Some err), c') \<Rightarrow> ((0, Some (''getting item from service : '' @ err)), c')
      | ((price, None), c') \<Rightarrow>
          ((price, None),
           c'\<lparr>prices := (prices c')(itemCode \<mapsto>
                 \<lparr>Price = price, Expiration = planExpiration now (maxAge c')\<rparr>)\<rparr>))"

text \<open>
  \<^verbatim>\<open>GetPriceFor\<close> reads the clock up to twice: \<open>now\<close> in \<^verbatim>\<open>IsExpired\<close> and, after the
  collaborator has answered, \<open>now'\<close> in \<^verbatim>\<open>planExpiration\<close>.
\<close>

definition GetPriceFor :: "64 word \<Rightarrow> 64 word \<Rightarrow> string \<Rightarrow> TransparentCache \<Rightarrow> (real \<times> error option) \<times> TransparentCache" where
  "GetPriceFor now now' itemCode c =
     (case prices c itemCode of
        Some item \<Rightarrow>
          if \<not> IsExpired now item then ((Price item, None), c)
          else fetchPrice now' itemCode c
      | None \<Rightarrow> fetchPrice now' itemCode c)"

text \<open>
  The revision of the function that spans lines 49 to 73 of its file removes an expired
  item from the map before it asks the collaborator: \<^verbatim>\<open>delete(c.prices, itemCode)\<close>,
  with the comment \<^verbatim>\<open>removing from cache when expired\<close>. The rest is as above.
\<close>

definition GetPriceFor_purging :: "64 word \<Rightarrow> 64 word \<Rightarrow> string \<Rightarrow> TransparentCache \<Rightarrow> (real \<times> error option) \<times> TransparentCache" where
  "GetPriceFor_purging now now' itemCode c =
     (case prices c itemCode of
        Some item \<Rightarrow>
          if \<not> IsExpired now item then ((Price item, None), c)
          else fetchPrice now' itemCode (c\<lparr>prices := (prices c)(itemCode := None)\<rparr>)
      | None \<Rightarrow> fetchPrice now' itemCode c)"

section \<open>Batch retrieval\<close>

text \<open>
  \<^verbatim>\<open>GetPricesFor\<close> starts one goroutine per item code and then receives from the two
  unbuffered channels \<^verbatim>\<open>ch\<close> and \<^verbatim>\<open>errCh\<close> in a \<^verbatim>\<open>select\<close> loop. Its outcome depends on
  the order in which the goroutines and the loop take their turns, so the function is
  modelled as a transition system whose steps are the actions of the goroutines and of
  the loop, and a run is driven by a schedule.

  The map \<^verbatim>\<open>c.prices\<close> is read by the goroutines (line 90) and written by the loop
  (line 128) with nothing that keeps the two apart. When a goroutine executes the read
  while the loop is inside the write, the Go runtime ends the program with the fatal error
  \<^verbatim>\<open>concurrent map read and map write\<close>; this is the step \<open>MapRace\<close> below. In the other
  steps the read and the write do not overlap.

  A goroutine is at one of these places:
  \<^item> \<open>Spawned code\<close>: started with its argument, line 90 not yet executed;
  \<^item> \<open>AtErrSend code price err\<close>: the collaborator failed and the goroutine waits to send
    \<open>err\<close> on \<^verbatim>\<open>errCh\<close> (line 104);
  \<^item> \<open>AtHitSend code price\<close>: the item was found in the map and not expired, and the
    goroutine waits to send the pair on \<^verbatim>\<open>ch\<close> (line 93);
  \<^item> \<open>AtResSend code price\<close>: the collaborator has been asked and the goroutine waits to
    send the pair on \<^verbatim>\<open>ch\<close> (line 107);
  \<^item> \<open>Finished\<close>: returned;
  \<^item> \<open>Panicked\<close>: its send met a closed channel;
  \<^item> \<open>Fatal\<close>: the runtime found its map read inside a map write.
\<close>

datatype goroutine =
    Spawned string
  | AtErrSend string real error
  | AtHitSend string real
  | AtResSend string real
  | Finished
  | Panicked
  | Fatal

text \<open>The pair a goroutine waits to send on \<^verbatim>\<open>ch\<close>, if it is at such a send.\<close>

fun sending :: "goroutine \<Rightarrow> (string \<times> real) option" where
  "sending (AtHitSend code price) = Some (code, price)"
| "sending (AtResSend code price) = Some (code, price)"
| "sending _ = None"

text \<open>
  The state of one call: the cache, the arguments, the goroutines in the order of the
  arguments, the slice \<^verbatim>\<open>results\<close>, and what the call has returned (\<open>None\<close> while the
  loop is running). The deferred \<^verbatim>\<open>close\<close> calls run when the function returns, so both
  channels are closed exactly when \<open>returned\<close> is not \<open>None\<close>. A \<^verbatim>\<open>nil\<close> slice is the
  empty list.
\<close>

record batch =
  cache :: TransparentCache
  itemCodes :: "string list"
  goroutines :: "goroutine list"
  results :: "real list"
  returned :: "(real list \<times> error option) option"

text \<open>
  The actions a schedule is made of:
  \<^item> \<open>Run i now\<close>: goroutine \<open>i\<close> executes lines 90 to 101 up to its first send;
    \<open>now\<close> is the clock reading of \<^verbatim>\<open>IsExpired\<close>;
  \<^item> \<open>RecvErr i\<close>: the \<^verbatim>\<open>select\<close> takes the error that goroutine \<open>i\<close> sends on \<^verbatim>\<open>errCh\<close>;
  \<^item> \<open>RecvRes i now\<close>: the \<^verbatim>\<open>select\<close> takes the pair that goroutine \<open>i\<close> sends on
    \<^verbatim>\<open>ch\<close>; \<open>now\<close> is the clock reading of \<^verbatim>\<open>planExpiration\<close>;
  \<^item> \<open>SendClosed i\<close>: the send of goroutine \<open>i\<close> meets its channel closed;
  \<^item> \<open>MapRace i j\<close>: the \<^verbatim>\<open>select\<close> takes the pair that goroutine \<open>i\<close> sends on
    \<^verbatim>\<open>ch\<close>, and while the loop is inside the map write of line 128 goroutine \<open>j\<close>
    executes the map read of line 90.
\<close>

datatype event =
    Run nat "64 word"
  | RecvErr nat
  | RecvRes nat "64 word"
  | SendClosed nat
  | MapRace nat nat

text \<open>Lines 100 to 107 of the goroutine: the place it reaches after asking the collaborator.\<close>

definition fetchInGoroutine :: "string \<Rightarrow> TransparentCache \<Rightarrow> goroutine \<times> TransparentCache" where
  "fetchInGoroutine code c =
     (case callService code c of
        ((price, Some err), c') \<Rightarrow> (AtErrSend code price err, c')
      | ((price, None), c') \<Rightarrow> (AtResSend code price, c'))"

text \<open>Lines 90 to 101 of the goroutine.\<close>

definition runGoroutine :: "64 word \<Rightarrow> string \<Rightarrow> TransparentCache \<Rightarrow> goroutine \<times> TransparentCache" where
  "runGoroutine now code c =
     (case prices c code of
        Some item \<Rightarrow>
          if \<not> IsExpired now item then (AtHitSend code (Price item), c)
          else fetchInGoroutine code c
      | None \<Rightarrow> fetchInGoroutine code c)"

text \<open>Lines 121 to 135: the loop has received \<open>(code, price)\<close> on \<^verbatim>\<open>ch\<close>.\<close>

definition receiveResult :: "64 word \<Rightarrow> string \<Rightarrow> real \<Rightarrow> batch \<Rightarrow> batch" where
  "receiveResult now code price b =
     (let results' = results b @ [price];
          c = cache b;
          c' = c\<lparr>prices := (prices c)(code \<mapsto>
                  \<lparr>Price = price, Expiration = planExpiration now (maxAge c)\<rparr>)\<rparr>
      in b\<lparr>cache := c', results := results',
            returned := (if length results' = length (itemCodes b)
                         then Some (results', None) else None)\<rparr>)"

text \<open>A panic of a goroutine and a fatal error of the runtime end the program.\<close>

definition ended :: "batch \<Rightarrow> bool" where
  "ended b = (Panicked \<in> set (goroutines b) \<or> Fatal \<in> set (goroutines b))"

text \<open>
  One step. An action that cannot happen in the state gives \<open>None\<close>. Nothing happens
  once the program has ended. A receive needs the loop to be running; a send meets a
  closed channel once the function has returned. After the loop has taken the error of a
  goroutine (lines 118 to 120) that goroutine goes on to line 107. In \<open>MapRace\<close> the loop
  has received the pair and appended the price (lines 121 to 126) and the program ends
  before the map write is done.
\<close>

fun step :: "event \<Rightarrow> batch \<Rightarrow> batch option" where
  "step (Run i now) b =
     (if ended b \<or> length (goroutines b) \<le> i then None
      else case goroutines b ! i of
        Spawned code \<Rightarrow>
          (case runGoroutine now code (cache b) of
             (g, c') \<Rightarrow> Some (b\<lparr>cache := c', goroutines := (goroutines b)[i := g]\<rparr>))
      | _ \<Rightarrow> None)"
| "step (RecvErr i) b =
     (if ended b \<or> length (goroutines b) \<le> i \<or> returned b \<noteq> None
      then None
      else case goroutines b ! i of
        AtErrSend code price err \<Rightarrow>
          Some (b\<lparr>goroutines := (goroutines b)[i := AtResSend code price],
                  returned := Some ([], Some err)\<rparr>)
      | _ \<Rightarrow> None)"
| "step (RecvRes i now) b =
     (if ended b \<or> length (goroutines b) \<le> i \<or> returned b \<noteq> None
      then None
      else case sending (goroutines b ! i) of
        Some (code, price) \<Rightarrow>
          Some (receiveResult now code price (b\<lparr>goroutines := (goroutines b)[i := Finished]\<rparr>))
      | None \<Rightarrow> None)"
| "step (SendClosed i) b =
     (if ended b \<or> length (goroutines b) \<le> i \<or> returned b = None
      then None
      else case goroutines b ! i of
        AtErrSend code price err \<Rightarrow> Some (b\<lparr>goroutines := (goroutines b)[i := Panicked]\<rparr>)
      | AtHitSend code price \<Rightarrow> Some (b\<lparr>goroutines := (goroutines b)[i := Panicked]\<rparr>)
      | AtResSend code price \<Rightarrow> Some (b\<lparr>goroutines := (goroutines b)[i := Panicked]\<rparr>)
      | _ \<Rightarrow> None)"
| "step (MapRace i j) b =
     (if ended b \<or> length (goroutines b) \<le> i \<or> length (goroutines b) \<le> j \<or>
         returned b \<noteq> None
      then None
      else case goroutines b ! j of
        Spawned code' \<Rightarrow>
          (case sending (goroutines b ! i) of
             Some (code, price) \<Rightarrow>
               Some (b\<lparr>goroutines := (goroutines b)[i := Finished, j := Fatal],
                       results := results b @ [price]\<rparr>)
           | None \<Rightarrow> None)
      | _ \<Rightarrow> None)"

text \<open>Lines 75 to 114: the state when the loop is entered, all goroutines started.\<close>

definition spawn :: "string list \<Rightarrow> TransparentCache \<Rightarrow> batch" where
  "spawn codes c =
     \<lparr>cache = c, itemCodes = codes, goroutines = map Spawned codes,
      results = [], returned = None\<rparr>"

fun exec :: "event list \<Rightarrow> batch \<Rightarrow> batch option" where
  "exec [] b = Some b"
| "exec (e # es) b = (case step e b of None \<Rightarrow> None | Some b' \<Rightarrow> exec es b')"

text \<open>\<^verbatim>\<open>GetPricesFor\<close> under a schedule: the state the schedule leads to, if it can be run.\<close>

definition GetPricesFor :: "event list \<Rightarrow> string list \<Rightarrow> TransparentCache \<Rightarrow> batch option" where
  "GetPricesFor sched codes c = exec sched (spawn codes c)"

section \<open>Batch retrieval in the revision that deletes expired items\<close>

text \<open>
  In the revision whose \<^verbatim>\<open>GetPriceFor\<close> deletes expired items, each goroutine of
  \<^verbatim>\<open>GetPricesFor\<close> (lines 77 to 111 of that file) calls \<^verbatim>\<open>c.GetPriceFor(code)\<close>, sends
  the error on \<^verbatim>\<open>errCh\<close> if there is one, and then sends the price on \<^verbatim>\<open>ch\<close>; the loop
  only collects the prices. The map is read, deleted from and written by the goroutines,
  with nothing that keeps them apart, so the call of a goroutine is taken in three steps,
  and other goroutines can take theirs in between:
  \<^item> lines 50 to 55: look the item up and return it if it is not expired;
  \<^item> lines 56 and 57: delete the expired item;
  \<^item> lines 60 to 72: ask the collaborator and store the answer.

  A goroutine is at one of these places:
  \<^item> \<open>PSpawned code\<close>: started, \<^verbatim>\<open>GetPriceFor\<close> not yet entered;
  \<^item> \<open>PDeleting code\<close>: inside \<^verbatim>\<open>GetPriceFor\<close>, the item was found expired and is about
    to be deleted (line 57);
  \<^item> \<open>PFetching code\<close>: inside \<^verbatim>\<open>GetPriceFor\<close>, before the call of the collaborator
    (line 61);
  \<^item> \<open>PAtErrSend price err\<close>: waiting to send \<open>err\<close> on \<^verbatim>\<open>errCh\<close> (line 93);
  \<^item> \<open>PAtResSend price\<close>: waiting to send \<open>price\<close> on \<^verbatim>\<open>ch\<close> (line 95);
  \<^item> \<open>PFinished\<close>: returned;
  \<^item> \<open>PPanicked\<close>: its send met a closed channel;
  \<^item> \<open>PFatal\<close>: the runtime found its map access inside a write of another goroutine.
\<close>

datatype pgoroutine =
    PSpawned string
  | PDeleting string
  | PFetching string
  | PAtErrSend real error
  | PAtResSend real
  | PFinished
  | PPanicked
  | PFatal

record pbatch =
  pcache :: TransparentCache
  pitemCodes :: "string list"
  pgoroutines :: "pgoroutine list"
  presults :: "real list"
  preturned :: "(real list \<times> error option) option"

text \<open>
  The actions:
  \<^item> \<open>PLookup i now\<close>: goroutine \<open>i\<close> executes lines 50 to 55 of \<^verbatim>\<open>GetPriceFor\<close>;
  \<^item> \<open>PDelete i\<close>: goroutine \<open>i\<close> executes lines 56 and 57;
  \<^item> \<open>PFetch i now\<close>: goroutine \<open>i\<close> executes lines 60 to 72 and reaches its send;
  \<^item> \<open>PRecvErr i\<close>, \<open>PRecvRes i\<close>: the \<^verbatim>\<open>select\<close> takes what goroutine \<open>i\<close> sends
    on \<^verbatim>\<open>errCh\<close>, on \<^verbatim>\<open>ch\<close>;
  \<^item> \<open>PSendClosed i\<close>: the send of goroutine \<open>i\<close> meets its channel closed;
  \<^item> \<open>PMapRace i j\<close>: goroutine \<open>j\<close> executes its next access to the map while
    goroutine \<open>i\<close> is inside its deletion or its write, and the runtime ends the program.
\<close>

datatype pevent =
    PLookup nat "64 word"
  | PDelete nat
  | PFetch nat "64 word"
  | PRecvErr nat
  | PRecvRes nat
  | PSendClosed nat
  | PMapRace nat nat

text \<open>Lines 50 to 55 of \<^verbatim>\<open>GetPriceFor\<close> in a goroutine: on a hit the goroutine has the
  price and no error, and goes to its send on \<^verbatim>\<open>ch\<close>.\<close>

definition lookupInGoroutine :: "64 word \<Rightarrow> string \<Rightarrow> TransparentCache \<Rightarrow> pgoroutine" where
  "lookupInGoroutine now code c =
     (case prices c code of
        Some item \<Rightarrow>
          if \<not> IsExpired now item then PAtResSend (Price item) else PDeleting code
      | None \<Rightarrow> PFetching code)"

text \<open>Lines 60 to 72 of \<^verbatim>\<open>GetPriceFor\<close> in a goroutine, and lines 91 to 95 of the goroutine.\<close>

definition storeInGoroutine :: "64 word \<Rightarrow> string \<Rightarrow> TransparentCache \<Rightarrow> pgoroutine \<times> TransparentCache" where
  "storeInGoroutine now code c =
     (case fetchPrice now code c of
        ((price, Some err), c') \<Rightarrow> (PAtErrSend price err, c')
      | ((price, None), c') \<Rightarrow> (PAtResSend price, c'))"

text \<open>Whether the next step of a goroutine deletes from or writes to the map, and whether
  it accesses the map at all.\<close>

fun writesMap :: "TransparentCache \<Rightarrow> pgoroutine \<Rightarrow> bool" where
  "writesMap c (PDeleting code) = True"
| "writesMap c (PFetching code) =
     (snd (actualPriceService c (length (invoked c)) code) = None)"
| "writesMap c _ = False"

fun accessesMap :: "TransparentCache \<Rightarrow> pgoroutine \<Rightarrow> bool" where
  "accessesMap c (PSpawned code) = True"
| "accessesMap c (PDeleting code) = True"
| "accessesMap c (PFetching code) =
     (snd (actualPriceService c (length (invoked c)) code) = None)"
| "accessesMap c _ = False"

definition pended :: "pbatch \<Rightarrow> bool" where
  "pended b = (PPanicked \<in> set (pgoroutines b) \<or> PFatal \<in> set (pgoroutines b))"

text \<open>Lines 104 to 108: the loop has received \<open>price\<close> on \<^verbatim>\<open>ch\<close>.\<close>

definition collectResult :: "real \<Rightarrow> pbatch \<Rightarrow> pbatch" where
  "collectResult price b =
     (let results' = presults b @ [price]
      in b\<lparr>presults := results',
            preturned := (if length results' = length (pitemCodes b)
                          then Some (results', None) else None)\<rparr>)"

fun pstep :: "pevent \<Rightarrow> pbatch \<Rightarrow> pbatch option" where
  "pstep (PLookup i now) b =
     (if pended b \<or> length (pgoroutines b) \<le> i then None
      else case pgoroutines b ! i of
        PSpawned code \<Rightarrow>
          Some (b\<lparr>pgoroutines :=
                    (pgoroutines b)[i := lookupInGoroutine now code (pcache b)]\<rparr>)
      | _ \<Rightarrow> None)"
| "pstep (PDelete i) b =
     (if pended b \<or> length (pgoroutines b) \<le> i then None
      else case pgoroutines b ! i of
        PDeleting code \<Rightarrow>
          Some (b\<lparr>pcache := (pcache b)\<lparr>prices := (prices (pcache b))(code := None)\<rparr>,
                  pgoroutines := (pgoroutines b)[i := PFetching code]\<rparr>)
      | _ \<Rightarrow> None)"
| "pstep (PFetch i now) b =
     (if pended b \<or> length (pgoroutines b) \<le> i then None
      else case pgoroutines b ! i of
        PFetching code \<Rightarrow>
          (case storeInGoroutine now code (pcache b) of
             (g, c') \<Rightarrow> Some (b\<lparr>pcache := c', pgoroutines := (pgoroutines b)[i := g]\<rparr>))
      | _ \<Rightarrow> None)"
| "pstep (PRecvErr i) b =
     (if pended b \<or> length (pgoroutines b) \<le> i \<or> preturned b \<noteq> None
      then None
      else case pgoroutines b ! i of
        PAtErrSend price err \<Rightarrow>
          Some (b\<lparr>pgoroutines := (pgoroutines b)[i := PAtResSend price],
                  preturned := Some ([], Some err)\<rparr>)
      | _ \<Rightarrow> None)"
| "pstep (PRecvRes i) b =
     (if pended b \<or> length (pgoroutines b) \<le> i \<or> preturned b \<noteq> None
      then None
      else case pgoroutines b ! i of
        PAtResSend price \<Rightarrow>
          Some (collectResult price (b\<lparr>pgoroutines := (pgoroutines b)[i := PFinished]\<rparr>))
      | _ \<Rightarrow> None)"
| "pstep (PSendClosed i) b =
     (if pended b \<or> length (pgoroutines b) \<le> i \<or> preturned b = None
      then None
      else case pgoroutines b ! i of
        PAtErrSend price err \<Rightarrow> Some (b\<lparr>pgoroutines := (pgoroutines b)[i := PPanicked]\<rparr>)
      | PAtResSend price \<Rightarrow> Some (b\<lparr>pgoroutines := (pgoroutines b)[i := PPanicked]\<rparr>)
      | _ \<Rightarrow> None)"
| "pstep (PMapRace i j) b =
     (if pended b \<or> length (pgoroutines b) \<le> i \<or> length (pgoroutines b) \<le> j \<or> i = j
      then None
      else if writesMap (pcache b) (pgoroutines b ! i) \<and>
              accessesMap (pcache b) (pgoroutines b ! j)
      then Some (b\<lparr>pgoroutines := (pgoroutines b)[j := PFatal]\<rparr>)
      else None)"

definition pspawn :: "string list \<Rightarrow> TransparentCache \<Rightarrow> pbatch" where
  "pspawn codes c =
     \<lparr>pcache = c, pitemCodes = codes, pgoroutines = map PSpawned codes,
      presults = [], preturned = None\<rparr>"

fun pexec :: "pevent list \<Rightarrow> pbatch \<Rightarrow> pbatch option" where
  "pexec [] b = Some b"
| "pexec (e # es) b = (case pstep e b of None \<Rightarrow> None | Some b' \<Rightarrow> pexec es b')"

definition GetPricesFor_purging :: "pevent list \<Rightarrow> string list \<Rightarrow> TransparentCache \<Rightarrow> pbatch option" where
  "GetPricesFor_purging sched codes c = pexec sched (pspawn codes c)"

section \<open>Sequences of single-item calls\<close>

text \<open>
  A sequence of calls of \<^verbatim>\<open>GetPriceFor\<close>, each with its two clock readings and its item
  code, run from a cache. Beside the cache the run keeps, for each item code, the clock
  reading taken when the last successful answer of the collaborator for that code was
  stored (the reading of \<^verbatim>\<open>planExpiration\<close> in that call).
\<close>

fun serve :: "(64 word \<times> 64 word \<times> string) list \<Rightarrow> TransparentCache \<Rightarrow> (string \<rightharpoonup> 64 word) \<Rightarrow>
    TransparentCache \<times> (string \<rightharpoonup> 64 word)" where
  "serve [] c fetchedAt = (c, fetchedAt)"
| "serve ((now, now', itemCode) # calls) c fetchedAt =
     (case GetPriceFor now now' itemCode c of
        (r, c') \<Rightarrow>
          serve calls c'
            (if snd r = None \<and> length (invoked c) < length (invoked c')
             then fetchedAt(itemCode \<mapsto> now') else fetchedAt))"

section \<open>Notions used in the statements\<close>

text \<open>
  A call to the collaborator made since the journal had \<open>n\<close> entries has failed. With
  \<open>n\<close> the length of the journal when \<^verbatim>\<open>GetPricesFor\<close> is called, this says that a
  fetch of the batch has failed.
\<close>

definition failedSince :: "nat \<Rightarrow> batch \<Rightarrow> bool" where
  "failedSince n b = (\<exists>x \<in> set (drop n (invoked (cache b))). snd (snd x) \<noteq> None)"

text \<open>The number of goroutines that have returned.\<close>

definition finishedCount :: "goroutine list \<Rightarrow> nat" where
  "finishedCount gs = length (filter (\<lambda>g. g = Finished) gs)"

fun atErrSend :: "goroutine \<Rightarrow> bool" where
  "atErrSend (AtErrSend code price err) = True"
| "atErrSend _ = False"

text \<open>
  What holds in every state of a call of \<^verbatim>\<open>GetPricesFor\<close>: there is one goroutine per
  argument; while the loop runs no goroutine has panicked, \<^verbatim>\<open>results\<close> has one element
  per goroutine that has returned, and a failed fetch means that some goroutine waits to
  send its error; after a return without error all goroutines have returned and no fetch
  has failed; and a return with an error carries the \<^verbatim>\<open>nil\<close> slice.
\<close>

definition batchInv :: "nat \<Rightarrow> batch \<Rightarrow> bool" where
  "batchInv n b =
     (length (goroutines b) = length (itemCodes b) \<and> n \<le> length (invoked (cache b)) \<and>
      (case returned b of
         None \<Rightarrow>
           Panicked \<notin> set (goroutines b) \<and>
           length (results b) = finishedCount (goroutines b) \<and>
           (failedSince n b \<longrightarrow>
              (\<exists>j < length (goroutines b). atErrSend (goroutines b ! j)))
       | Some (rs, None) \<Rightarrow> (\<forall>g \<in> set (goroutines b). g = Finished) \<and> \<not> failedSince n b
       | Some (rs, Some e) \<Rightarrow> rs = []))"

text \<open>
  The number of steps a goroutine can still take, at most: run, have its error taken,
  have its result taken (or panic, or end the program).
\<close>

fun weight :: "goroutine \<Rightarrow> nat" where
  "weight (Spawned code) = 3"
| "weight (AtErrSend code price err) = 2"
| "weight (AtHitSend code price) = 1"
| "weight (AtResSend code price) = 1"
| "weight Finished = 0"
| "weight Panicked = 0"
| "weight Fatal = 0"

definition pending :: "batch \<Rightarrow> nat" where
  "pending b = sum_list (map weight (goroutines b))"

section \<open>Concrete collaborators and caches\<close>

text \<open>Collaborators, caches and states used to evaluate the functions on concrete inputs.\<close>

definition svc_down :: PriceService where
  "svc_down n code = (0, Some ''boom'')"

definition svc_ten :: PriceService where
  "svc_ten n code = (10, None)"

definition svc_ab :: PriceService where
  "svc_ab n code = (if code = ''a'' then (1, None) else (2, None))"

definition svc_mixed :: PriceService where
  "svc_mixed n code = (if code = ''bad'' then (0, Some ''boom'') else (10, None))"

definition stale_cache :: TransparentCache where
  "stale_cache =
     \<lparr>actualPriceService = svc_down, maxAge = 1000,
      prices = [''p1'' \<mapsto> \<lparr>Price = 10, Expiration = 3\<rparr>], invoked = []\<rparr>"

definition warm_cache :: TransparentCache where
  "warm_cache =
     \<lparr>actualPriceService = svc_ten, maxAge = 1000,
      prices = [''p1'' \<mapsto> \<lparr>Price = 10, Expiration = 100\<rparr>], invoked = []\<rparr>"

definition warmed :: TransparentCache where
  "warmed = warm_cache\<lparr>invoked := [(''p2'', 10, None)],
                 prices := (prices warm_cache)(''p2'' \<mapsto> \<lparr>Price = 10, Expiration = 1006\<rparr>)\<rparr>"

definition purged :: TransparentCache where
  "purged = stale_cache\<lparr>prices := Map.empty, invoked := [(''p1'', 0, Some ''boom'')]\<rparr>"

definition ab_cache :: TransparentCache where
  "ab_cache = NewTransparentCache svc_ab 1000"

definition mixed_cache :: TransparentCache where
  "mixed_cache = NewTransparentCache svc_mixed 1000"

text \<open>
  The state after the schedule in which both goroutines run, the loop takes the result of
  \<open>ok\<close> and then the error of \<open>bad\<close>.
\<close>

definition mixed_final :: batch where
  "mixed_final =
     \<lparr>cache = \<lparr>actualPriceService = svc_mixed, maxAge = 1000,
               prices = [''ok'' \<mapsto> \<lparr>Price = 10, Expiration = 1006\<rparr>],
               invoked = [(''ok'', 10, None), (''bad'', 0, Some ''boom'')]\<rparr>,
      itemCodes = [''ok'', ''bad''],
      goroutines = [Finished, AtResSend ''bad'' 0],
      results = [10],
      returned = Some ([], Some ''boom'')\<rparr>"

text \<open>
  Goroutine \<open>0\<close> found \<open>p1\<close> fresh in \<open>warm_cache\<close> and waits to send it; then the
  loop has taken it.
\<close>

definition hit_sent :: batch where
  "hit_sent =
     \<lparr>cache = warm_cache, itemCodes = [''p1''], goroutines = [AtHitSend ''p1'' 10],
      results = [], returned = None\<rparr>"

definition hit_received :: batch where
  "hit_received =
     \<lparr>cache = warm_cache\<lparr>prices := [''p1'' \<mapsto> \<lparr>Price = 10, Expiration = 1060\<rparr>]\<rparr>,
      itemCodes = [''p1''], goroutines = [Finished],
      results = [10], returned = Some ([10], None)\<rparr>"

text \<open>
  A cache whose \<open>maxAge\<close> is the largest duration, \<^verbatim>\<open>math.MaxInt64\<close> nanoseconds, and
  the same cache after a first call for \<open>p1\<close> at the instants \<open>5\<close> and \<open>6\<close>.
\<close>

definition forever_cache :: TransparentCache where
  "forever_cache = NewTransparentCache svc_ten 0x7FFFFFFFFFFFFFFF"

definition forever_fetched :: TransparentCache where
  "forever_fetched =
     forever_cache\<lparr>invoked := [(''p1'', 10, None)],
       prices := [''p1'' \<mapsto> \<lparr>Price = 10, Expiration = 6 + 0x7FFFFFFFFFFFFFFF\<rparr>]\<rparr>"

text \<open>
  The state after the schedule in which the goroutines of \<open>bad\<close> and \<open>ok\<close> have run
  and the goroutine of \<open>late\<close> reads the map while the loop stores the price of \<open>ok\<close>.
\<close>

definition race_final :: batch where
  "race_final =
     \<lparr>cache = mixed_cache\<lparr>invoked := [(''bad'', 0, Some ''boom''), (''ok'', 10, None)]\<rparr>,
      itemCodes = [''bad'', ''ok'', ''late''],
      goroutines = [AtErrSend ''bad'' 0 ''boom'', Finished, Fatal],
      results = [10],
      returned = None\<rparr>"

text \<open>
  In the revision that deletes expired items: the goroutine of \<open>p1\<close> has found its item
  expired in \<open>stale_cache\<close>; it has deleted it; then the collaborator has failed.
\<close>

definition purge_looked :: pbatch where
  "purge_looked =
     \<lparr>pcache = stale_cache, pitemCodes = [''p1''],
      pgoroutines = [PDeleting ''p1''], presults = [], preturned = None\<rparr>"

definition purge_deleted :: pbatch where
  "purge_deleted =
     \<lparr>pcache = stale_cache\<lparr>prices := Map.empty\<rparr>, pitemCodes = [''p1''],
      pgoroutines = [PFetching ''p1''], presults = [], preturned = None\<rparr>"

definition purge_failed :: pbatch where
  "purge_failed =
     \<lparr>pcache = purged, pitemCodes = [''p1''],
      pgoroutines = [PAtErrSend 0 ''getting item from service : boom''],
      presults = [], preturned = None\<rparr>"

text \<open>
  An empty cache, and the same cache after \<open>p2\<close> was fetched and stored at the instant
  \<open>6\<close>.
\<close>

definition ten_cache :: TransparentCache where
  "ten_cache = NewTransparentCache svc_ten 1000"

definition ten_fetched :: TransparentCache where
  "ten_fetched =
     ten_cache\<lparr>invoked := [(''p2'', 10, None)],
       prices := [''p2'' \<mapsto> \<lparr>Price = 10, Expiration = 1006\<rparr>]\<rparr>"

text \<open>
  The goroutine of \<open>p2\<close> has fetched the price \<open>10\<close> and waits to send it; then the
  loop has taken it at the instant \<open>60\<close>.
\<close>

definition fetch_sent :: batch where
  "fetch_sent =
     \<lparr>cache = warm_cache\<lparr>invoked := [(''p2'', 10, None)]\<rparr>, itemCodes = [''p2''],
      goroutines = [AtResSend ''p2'' 10], results = [], returned = None\<rparr>"

definition fetch_received :: batch where
  "fetch_received =
     \<lparr>cache = warm_cache\<lparr>invoked := [(''p2'', 10, None)],
        prices := (prices warm_cache)(''p2'' \<mapsto> \<lparr>Price = 10, Expiration = 1060\<rparr>)\<rparr>,
      itemCodes = [''p2''], goroutines = [Finished],
      results = [10], returned = Some ([10], None)\<rparr>"

section \<open>Properties of single-item retrieval\<close>

lemmas ex_defs = stale_cache_def warm_cache_def svc_down_def svc_ten_def svc_ab_def
  NewTransparentCache_def GetPriceFor_def fetchPrice_def callService_def IsExpired_def
  planExpiration_def Let_def

lemma GetPriceFor_hit:
  "prices c k = Some item \<Longrightarrow> \<not> IsExpired now item \<Longrightarrow>
   GetPriceFor now now' k c = ((Price item, None), c)"
  by (simp add: GetPriceFor_def)

lemma GetPriceFor_miss:
  "prices c k = None \<Longrightarrow> GetPriceFor now now' k c = fetchPrice now' k c"
  by (simp add: GetPriceFor_def)

lemma GetPriceFor_expired:
  "prices c k = Some item \<Longrightarrow> IsExpired now item \<Longrightarrow>
   GetPriceFor now now' k c = fetchPrice now' k c"
  by (simp add: GetPriceFor_def)

text \<open>The two ways \<open>fetchPrice\<close> can end, by the answer of the collaborator.\<close>

lemma fetchPrice_cases:
  assumes "fetchPrice t k c = (r, c')"
  obtains (fail) p e where "actualPriceService c (length (invoked c)) k = (p, Some e)"
      "r = (0, Some (''getting item from service : '' @ e))"
      "c' = c\<lparr>invoked := invoked c @ [(k, p, Some e)]\<rparr>"
  | (ok) p where "actualPriceService c (length (invoked c)) k = (p, None)"
      "r = (p, None)"
      "c' = c\<lparr>invoked := invoked c @ [(k, p, None)],
              prices := (prices c)(k \<mapsto> \<lparr>Price = p, Expiration = t + maxAge c\<rparr>)\<rparr>"
proof (cases "actualPriceService c (length (invoked c)) k")
  case (Pair p eo)
  show ?thesis
  proof (cases eo)
    case None
    with Pair assms have "r = (p, None)" and
      "c' = c\<lparr>invoked := invoked c @ [(k, p, None)],
              prices := (prices c)(k \<mapsto> \<lparr>Price = p, Expiration = t + maxAge c\<rparr>)\<rparr>"
      by (auto simp: fetchPrice_def callService_def planExpiration_def Let_def)
    with Pair None show ?thesis using ok by blast
  next
    case (Some e)
    with Pair assms have "r = (0, Some (''getting item from service : '' @ e))"
      "c' = c\<lparr>invoked := invoked c @ [(k, p, Some e)]\<rparr>"
      by (auto simp: fetchPrice_def callService_def Let_def)
    with Pair Some show ?thesis using fail by blast
  qed
qed

text \<open>The ways \<open>GetPriceFor\<close> can end: served from the map, or through \<open>fetchPrice\<close>.\<close>

lemma GetPriceFor_cases:
  assumes "GetPriceFor now now' k c = (r, c')"
  obtains (hit) item where "prices c k = Some item" "\<not> IsExpired now item"
      "r = (Price item, None)" "c' = c"
  | (miss) "fetchPrice now' k c = (r, c')"
      "prices c k = None \<or> (\<exists>item. prices c k = Some item \<and> IsExpired now item)"
proof (cases "prices c k")
  case None
  with assms miss show ?thesis by (simp add: GetPriceFor_miss)
next
  case (Some item)
  show ?thesis
  proof (cases "IsExpired now item")
    case True
    with Some assms miss show ?thesis by (simp add: GetPriceFor_expired)
  next
    case False
    with Some assms have "r = (Price item, None)" "c' = c"
      by (simp_all add: GetPriceFor_hit)
    with Some False hit show ?thesis by blast
  qed
qed

text \<open>When the journal grows by a failed call, the function went through the failure branch.\<close>

lemma GetPriceFor_failed:
  assumes "GetPriceFor now now' k c = (r, c')"
    and "invoked c' = invoked c @ [(k, p, Some e)]"
  shows "r = (0, Some (''getting item from service : '' @ e))"
    and "c' = c\<lparr>invoked := invoked c @ [(k, p, Some e)]\<rparr>"
proof -
  from assms(1) have "r = (0, Some (''getting item from service : '' @ e)) \<and>
      c' = c\<lparr>invoked := invoked c @ [(k, p, Some e)]\<rparr>"
  proof (cases rule: GetPriceFor_cases)
    case (hit item)
    with assms(2) show ?thesis by simp
  next
    case miss
    from miss(1) show ?thesis
    proof (cases rule: fetchPrice_cases)
      case (fail p' e')
      with assms(2) show ?thesis by simp
    next
      case (ok p')
      with assms(2) show ?thesis by simp
    qed
  qed
  then show "r = (0, Some (''getting item from service : '' @ e))"
    and "c' = c\<lparr>invoked := invoked c @ [(k, p, Some e)]\<rparr>" by simp_all
qed

subsection \<open>Failure of the collaborator\<close>

text \<open>
  Claim C10. Whenever the collaborator fails for the requested key, that is, the call adds
  a failed answer for the key to the journal, \<open>GetPriceFor\<close> returns the price \<open>0\<close>
  together with an error, whatever the map held for the key.
\<close>

theorem GetPriceFor_failure_returns_zero:
  assumes "GetPriceFor now now' k c = (r, c')"
    and "invoked c' = invoked c @ [(k, p, Some e)]"
  shows "fst r = 0 \<and> snd r \<noteq> None"
  using GetPriceFor_failed(1) [OF assms] by simp

text \<open>On \<open>stale_cache\<close> the expired price \<open>10\<close> of \<open>p1\<close> is not returned.\<close>

theorem GetPriceFor_failure_returns_zero_witness:
  "GetPriceFor 5 6 ''p1'' stale_cache =
     ((0, Some ''getting item from service : boom''),
      stale_cache\<lparr>invoked := [(''p1'', 0, Some ''boom'')]\<rparr>) \<and>
   invoked (stale_cache\<lparr>invoked := [(''p1'', 0, Some ''boom'')]\<rparr>) =
     invoked stale_cache @ [(''p1'', 0, Some ''boom'')] \<and>
   prices stale_cache ''p1'' = Some \<lparr>Price = 10, Expiration = 3\<rparr> \<and>
   fst (0 :: real, Some ''getting item from service : boom'') = 0 \<and>
   snd (0 :: real, Some ''getting item from service : boom'') \<noteq> None"
proof -
  have run: "GetPriceFor 5 6 ''p1'' stale_cache =
     ((0, Some ''getting item from service : boom''),
      stale_cache\<lparr>invoked := [(''p1'', 0, Some ''boom'')]\<rparr>)"
    by (simp add: ex_defs)
  have log: "invoked (stale_cache\<lparr>invoked := [(''p1'', 0, Some ''boom'')]\<rparr>) =
     invoked stale_cache @ [(''p1'', 0, Some ''boom'')]"
    by (simp add: stale_cache_def)
  have "prices stale_cache ''p1'' = Some \<lparr>Price = 10, Expiration = 3\<rparr>"
    by (simp add: stale_cache_def)
  with run log GetPriceFor_failure_returns_zero [OF run log] show ?thesis by simp
qed

text \<open>
  Claim C6. When the collaborator fails for the requested key, \<open>GetPriceFor\<close> leaves
  the map as it was; and whenever a call changes the map, the collaborator has answered
  that call successfully and the only change is the new entry of the requested key.
\<close>

theorem GetPriceFor_failure_keeps_store:
  assumes "GetPriceFor now now' k c = (r, c')"
  shows "(invoked c' = invoked c @ [(k, p, Some e)] \<longrightarrow> prices c' = prices c) \<and>
         (prices c' \<noteq> prices c \<longrightarrow>
            (\<exists>q. invoked c' = invoked c @ [(k, q, None)] \<and> r = (q, None) \<and>
                 prices c' = (prices c)(k \<mapsto> \<lparr>Price = q, Expiration = now' + maxAge c\<rparr>)))"
proof
  show "invoked c' = invoked c @ [(k, p, Some e)] \<longrightarrow> prices c' = prices c"
  proof
    assume "invoked c' = invoked c @ [(k, p, Some e)]"
    from GetPriceFor_failed(2) [OF assms this] show "prices c' = prices c" by simp
  qed
  show "prices c' \<noteq> prices c \<longrightarrow>
            (\<exists>q. invoked c' = invoked c @ [(k, q, None)] \<and> r = (q, None) \<and>
                 prices c' = (prices c)(k \<mapsto> \<lparr>Price = q, Expiration = now' + maxAge c\<rparr>))"
  proof
    assume changed: "prices c' \<noteq> prices c"
    from assms show "\<exists>q. invoked c' = invoked c @ [(k, q, None)] \<and> r = (q, None) \<and>
                 prices c' = (prices c)(k \<mapsto> \<lparr>Price = q, Expiration = now' + maxAge c\<rparr>)"
    proof (cases rule: GetPriceFor_cases)
      case (hit item)
      with changed show ?thesis by simp
    next
      case miss
      from miss(1) show ?thesis
      proof (cases rule: fetchPrice_cases)
        case (fail p' e')
        with changed show ?thesis by simp
      next
        case (ok q)
        then show ?thesis by simp
      qed
    qed
  qed
qed

theorem GetPriceFor_failure_keeps_store_witness:
  "GetPriceFor 5 6 ''p1'' stale_cache =
     ((0, Some ''getting item from service : boom''),
      stale_cache\<lparr>invoked := [(''p1'', 0, Some ''boom'')]\<rparr>) \<and>
   invoked (stale_cache\<lparr>invoked := [(''p1'', 0, Some ''boom'')]\<rparr>) =
     invoked stale_cache @ [(''p1'', 0, Some ''boom'')] \<and>
   prices (stale_cache\<lparr>invoked := [(''p1'', 0, Some ''boom'')]\<rparr>) = prices stale_cache \<and>
   GetPriceFor 5 6 ''p2'' warm_cache =
     ((10, None),
      warm_cache\<lparr>invoked := [(''p2'', 10, None)],
                 prices := (prices warm_cache)(''p2'' \<mapsto> \<lparr>Price = 10, Expiration = 1006\<rparr>)\<rparr>) \<and>
   prices (warm_cache\<lparr>invoked := [(''p2'', 10, None)],
                 prices := (prices warm_cache)(''p2'' \<mapsto> \<lparr>Price = 10, Expiration = 1006\<rparr>)\<rparr>)
     \<noteq> prices warm_cache \<and>
   (\<exists>q. invoked (warm_cache\<lparr>invoked := [(''p2'', 10, None)],
                 prices := (prices warm_cache)(''p2'' \<mapsto> \<lparr>Price = 10, Expiration = 1006\<rparr>)\<rparr>)
         = invoked warm_cache @ [(''p2'', q, None)])"
proof -
  have run: "GetPriceFor 5 6 ''p1'' stale_cache =
     ((0, Some ''getting item from service : boom''),
      stale_cache\<lparr>invoked := [(''p1'', 0, Some ''boom'')]\<rparr>)"
    by (simp add: ex_defs)
  have log: "invoked (stale_cache\<lparr>invoked := [(''p1'', 0, Some ''boom'')]\<rparr>) =
     invoked stale_cache @ [(''p1'', 0, Some ''boom'')]"
    by (simp add: stale_cache_def)
  have run2: "GetPriceFor 5 6 ''p2'' warm_cache =
     ((10, None),
      warm_cache\<lparr>invoked := [(''p2'', 10, None)],
                 prices := (prices warm_cache)(''p2'' \<mapsto> \<lparr>Price = 10, Expiration = 1006\<rparr>)\<rparr>)"
    by (simp add: ex_defs)
  have ne: "prices (warm_cache\<lparr>invoked := [(''p2'', 10, None)],
                 prices := (prices warm_cache)(''p2'' \<mapsto> \<lparr>Price = 10, Expiration = 1006\<rparr>)\<rparr>)
     \<noteq> prices warm_cache"
  proof
    assume "prices (warm_cache\<lparr>invoked := [(''p2'', 10, None)],
                 prices := (prices warm_cache)(''p2'' \<mapsto> \<lparr>Price = 10, Expiration = 1006\<rparr>)\<rparr>)
       = prices warm_cache"
    then have "prices (warm_cache\<lparr>invoked := [(''p2'', 10, None)],
                 prices := (prices warm_cache)(''p2'' \<mapsto> \<lparr>Price = 10, Expiration = 1006\<rparr>)\<rparr>) ''p2''
       = prices warm_cache ''p2''" by (rule arg_cong)
    then show False by (simp add: warm_cache_def)
  qed
  from GetPriceFor_failure_keeps_store [OF run, of 0 "''boom''"] log
  have a: "prices (stale_cache\<lparr>invoked := [(''p1'', 0, Some ''boom'')]\<rparr>) = prices stale_cache"
    by blast
  from GetPriceFor_failure_keeps_store [OF run2] ne
  have b: "\<exists>q. invoked (warm_cache\<lparr>invoked := [(''p2'', 10, None)],
                 prices := (prices warm_cache)(''p2'' \<mapsto> \<lparr>Price = 10, Expiration = 1006\<rparr>)\<rparr>)
         = invoked warm_cache @ [(''p2'', q, None)]"
    by blast
  from run log a run2 ne b show ?thesis by blast
qed

text \<open>
  The text of the returned error is \<^verbatim>\<open>fmt.Errorf("getting item from service : %v",
  err.Error())\<close>: the item code is not among the arguments of the format. With the
  collaborator error \<open>boom\<close> and the key \<open>p1\<close> the key does not occur in the text.
\<close>

theorem GetPriceFor_error_names_key_counterexample:
  "snd (fst (GetPriceFor 5 6 ''p1'' stale_cache)) = Some ''getting item from service : boom'' \<and>
   invoked (snd (GetPriceFor 5 6 ''p1'' stale_cache)) = [(''p1'', 0, Some ''boom'')] \<and>
   \<not> sublist ''p1'' ''getting item from service : boom''"
  by (simp add: ex_defs sublist_code)

text \<open>
  Claim C7, amended. When the collaborator fails for the requested key with the error
  \<open>e\<close>, the error returned by \<open>GetPriceFor\<close> is the fixed text
  \<open>getting item from service : \<close> followed by \<open>e\<close>; the key is not added to it.
\<close>

theorem GetPriceFor_error_wrapped:
  assumes "GetPriceFor now now' k c = (r, c')"
    and "invoked c' = invoked c @ [(k, p, Some e)]"
  shows "snd r = Some (''getting item from service : '' @ e)"
  using GetPriceFor_failed(1) [OF assms] by simp

theorem GetPriceFor_error_wrapped_witness:
  "GetPriceFor 7 8 ''p1'' stale_cache =
     ((0, Some ''getting item from service : boom''),
      stale_cache\<lparr>invoked := [(''p1'', 0, Some ''boom'')]\<rparr>) \<and>
   invoked (stale_cache\<lparr>invoked := [(''p1'', 0, Some ''boom'')]\<rparr>) =
     invoked stale_cache @ [(''p1'', 0, Some ''boom'')] \<and>
   snd (0 :: real, Some ''getting item from service : boom'') =
     Some (''getting item from service : '' @ ''boom'')"
proof -
  have run: "GetPriceFor 7 8 ''p1'' stale_cache =
     ((0, Some ''getting item from service : boom''),
      stale_cache\<lparr>invoked := [(''p1'', 0, Some ''boom'')]\<rparr>)"
    by (simp add: ex_defs)
  have log: "invoked (stale_cache\<lparr>invoked := [(''p1'', 0, Some ''boom'')]\<rparr>) =
     invoked stale_cache @ [(''p1'', 0, Some ''boom'')]"
    by (simp add: stale_cache_def)
  from run log GetPriceFor_error_wrapped [OF run log] show ?thesis by simp
qed

subsection \<open>Serving from the map\<close>

text \<open>
  Within the range of \<^verbatim>\<open>int64\<close> the sum computed by \<open>planExpiration\<close> is the sum of
  the integers.
\<close>

lemma sint_plus_in_range:
  fixes a b :: "64 word"
  assumes "- (2 ^ 63) \<le> sint a + sint b" and "sint a + sint b < 2 ^ 63"
  shows "sint (a + b) = sint a + sint b"
  using assms by (simp add: sint_word_ariths signed_take_bit_int_eq_self)

lemma sint_lower: "- (2 ^ 63) \<le> sint (a :: 64 word)"
  using sint_ge [of a] by simp

lemma not_expired_before:
  fixes t t0 age :: "64 word"
  assumes "sint t < sint t0 + sint age" and "sint t0 + sint age < 2 ^ 63"
  shows "\<not> IsExpired t \<lparr>Price = p, Expiration = t0 + age\<rparr>"
proof -
  from sint_lower [of t] assms(1) have "- (2 ^ 63) \<le> sint t0 + sint age" by linarith
  with assms(2) have "sint (t0 + age) = sint t0 + sint age" by (simp add: sint_plus_in_range)
  with assms(1) show ?thesis by (simp add: IsExpired_def word_sless_alt)
qed

text \<open>
  With \<open>maxAge\<close> the largest duration, a price fetched at the instant \<open>6\<close> gets an
  expiration that has wrapped around to a negative instant. The call one nanosecond
  later, long before \<open>maxAge\<close> has elapsed, finds it expired and asks the collaborator
  a second time.
\<close>

theorem GetPriceFor_refetch_counterexample:
  "GetPriceFor 5 6 ''p1'' forever_cache = ((10, None), forever_fetched) \<and>
   invoked forever_fetched = [(''p1'', 10, None)] \<and>
   sint (7 :: 64 word) < sint (6 :: 64 word) + sint (maxAge forever_cache) \<and>
   IsExpired 7 \<lparr>Price = 10, Expiration = 6 + 0x7FFFFFFFFFFFFFFF\<rparr> \<and>
   invoked (snd (GetPriceFor 7 8 ''p1'' forever_fetched)) =
     [(''p1'', 10, None), (''p1'', 10, None)]"
  by (simp add: ex_defs forever_cache_def forever_fetched_def)

text \<open>
  Claim C4, amended. If the item of the key is present and not expired at the clock
  reading of the call, \<open>GetPriceFor\<close> returns its price and the cache is unchanged: the
  map is the same and so is the journal, so the collaborator was not asked. In
  particular, after a call that fetched the price \<open>p\<close> at the instant \<open>t0'\<close>, a call at
  any instant \<open>t1\<close> before \<open>t0'\<close> plus \<open>maxAge\<close> returns \<open>p\<close> again and leaves the cache
  unchanged, provided that the instant \<open>t0'\<close> plus \<open>maxAge\<close> is within the \<^verbatim>\<open>int64\<close>
  nanosecond counts.
\<close>

theorem GetPriceFor_fresh_hit:
  "(prices c k = Some item \<longrightarrow> \<not> IsExpired now item \<longrightarrow>
      GetPriceFor now now' k c = ((Price item, None), c)) \<and>
   (GetPriceFor t0 t0' k c = (r, c1) \<longrightarrow> invoked c1 = invoked c @ [(k, p, None)] \<longrightarrow>
      sint t1 < sint t0' + sint (maxAge c) \<longrightarrow> sint t0' + sint (maxAge c) < 2 ^ 63 \<longrightarrow>
      r = (p, None) \<and> GetPriceFor t1 t1' k c1 = ((p, None), c1))"
proof (intro conjI impI)
  assume "prices c k = Some item" "\<not> IsExpired now item"
  then show "GetPriceFor now now' k c = ((Price item, None), c)" by (rule GetPriceFor_hit)
next
  assume run: "GetPriceFor t0 t0' k c = (r, c1)"
    and log: "invoked c1 = invoked c @ [(k, p, None)]"
    and before: "sint t1 < sint t0' + sint (maxAge c)"
    and range: "sint t0' + sint (maxAge c) < 2 ^ 63"
  from run have "r = (p, None) \<and>
      prices c1 k = Some \<lparr>Price = p, Expiration = t0' + maxAge c\<rparr>"
  proof (cases rule: GetPriceFor_cases)
    case (hit item)
    with log show ?thesis by simp
  next
    case miss
    from miss(1) show ?thesis
    proof (cases rule: fetchPrice_cases)
      case (fail p' e')
      with log show ?thesis by simp
    next
      case (ok q)
      with log show ?thesis by simp
    qed
  qed
  then have r: "r = (p, None)"
    and stored: "prices c1 k = Some \<lparr>Price = p, Expiration = t0' + maxAge c\<rparr>" by simp_all
  from r show "r = (p, None)" .
  from GetPriceFor_hit [OF stored not_expired_before [OF before range]]
  show "GetPriceFor t1 t1' k c1 = ((p, None), c1)" by simp
qed

theorem GetPriceFor_fresh_hit_witness:
  "prices warm_cache ''p1'' = Some \<lparr>Price = 10, Expiration = 100\<rparr> \<and>
   \<not> IsExpired 100 \<lparr>Price = 10, Expiration = 100\<rparr> \<and>
   GetPriceFor 100 101 ''p1'' warm_cache = ((10, None), warm_cache) \<and>
   GetPriceFor 5 6 ''p2'' warm_cache = ((10, None), warmed) \<and>
   invoked warmed = invoked warm_cache @ [(''p2'', 10, None)] \<and>
   sint (1005 :: 64 word) < sint (6 :: 64 word) + sint (maxAge warm_cache) \<and>
   sint (6 :: 64 word) + sint (maxAge warm_cache) < 2 ^ 63 \<and>
   GetPriceFor 1005 1007 ''p2'' warmed = ((10, None), warmed)"
proof -
  have h1: "prices warm_cache ''p1'' = Some \<lparr>Price = 10, Expiration = 100\<rparr>"
    by (simp add: warm_cache_def)
  have h2: "\<not> IsExpired 100 \<lparr>Price = 10, Expiration = 100\<rparr>"
    by (simp add: IsExpired_def)
  have h3: "GetPriceFor 5 6 ''p2'' warm_cache = ((10, None), warmed)"
    by (simp add: ex_defs warmed_def)
  have h4: "invoked warmed = invoked warm_cache @ [(''p2'', 10, None)]"
    by (simp add: warmed_def warm_cache_def)
  have h5: "sint (1005 :: 64 word) < sint (6 :: 64 word) + sint (maxAge warm_cache)"
    by (simp add: warm_cache_def)
  have h6: "sint (6 :: 64 word) + sint (maxAge warm_cache) < 2 ^ 63"
    by (simp add: warm_cache_def)
  from GetPriceFor_fresh_hit [of warm_cache "''p1''" "\<lparr>Price = 10, Expiration = 100\<rparr>" 100 101]
    h1 h2
  have a: "GetPriceFor 100 101 ''p1'' warm_cache = ((10, None), warm_cache)" by simp
  from GetPriceFor_fresh_hit [of warm_cache "''p2''" _ _ _ 5 6 "(10, None)" warmed 10 1005 1007]
    h3 h4 h5 h6
  have b: "GetPriceFor 1005 1007 ''p2'' warmed = ((10, None), warmed)" by blast
  from h1 h2 a h3 h4 h5 h6 b show ?thesis by blast
qed

section \<open>Properties of the steps of batch retrieval\<close>

lemmas batch_defs = GetPricesFor_def spawn_def runGoroutine_def fetchInGoroutine_def
  receiveResult_def ended_def

lemma fetchInGoroutine_cases:
  assumes "fetchInGoroutine code c = (g, c')"
  obtains (fail) p e where "g = AtErrSend code p e"
      "c' = c\<lparr>invoked := invoked c @ [(code, p, Some e)]\<rparr>"
  | (ok) p where "g = AtResSend code p"
      "c' = c\<lparr>invoked := invoked c @ [(code, p, None)]\<rparr>"
proof (cases "actualPriceService c (length (invoked c)) code")
  case (Pair p eo)
  show ?thesis
  proof (cases eo)
    case None
    with Pair assms have "g = AtResSend code p"
      "c' = c\<lparr>invoked := invoked c @ [(code, p, None)]\<rparr>"
      by (auto simp: fetchInGoroutine_def callService_def Let_def)
    then show ?thesis using ok by blast
  next
    case (Some e)
    with Pair assms have "g = AtErrSend code p e"
      "c' = c\<lparr>invoked := invoked c @ [(code, p, Some e)]\<rparr>"
      by (auto simp: fetchInGoroutine_def callService_def Let_def)
    then show ?thesis using fail by blast
  qed
qed

lemma runGoroutine_cases:
  assumes "runGoroutine now code c = (g, c')"
  obtains (hit) item where "prices c code = Some item" "\<not> IsExpired now item"
      "g = AtHitSend code (Price item)" "c' = c"
  | (fail) p e where "g = AtErrSend code p e"
      "c' = c\<lparr>invoked := invoked c @ [(code, p, Some e)]\<rparr>"
  | (ok) p where "g = AtResSend code p"
      "c' = c\<lparr>invoked := invoked c @ [(code, p, None)]\<rparr>"
proof (cases "prices c code")
  case None
  with assms have "fetchInGoroutine code c = (g, c')" by (simp add: runGoroutine_def)
  then show ?thesis using fail ok by (cases rule: fetchInGoroutine_cases) blast+
next
  case (Some item)
  show ?thesis
  proof (cases "IsExpired now item")
    case True
    with Some assms have "fetchInGoroutine code c = (g, c')" by (simp add: runGoroutine_def)
    then show ?thesis using fail ok by (cases rule: fetchInGoroutine_cases) blast+
  next
    case False
    with Some assms have "g = AtHitSend code (Price item)" "c' = c"
      by (simp_all add: runGoroutine_def)
    with Some False show ?thesis using hit by blast
  qed
qed

lemma sending_cases:
  assumes "sending g = Some (code, price)"
  shows "g = AtHitSend code price \<or> g = AtResSend code price"
  using assms by (cases g) simp_all

text \<open>What each kind of step needs and does.\<close>

lemma step_Run:
  assumes "step (Run i now) b = Some b'"
  obtains code g c' where "i < length (goroutines b)" "\<not> ended b"
    "goroutines b ! i = Spawned code" "runGoroutine now code (cache b) = (g, c')"
    "b' = b\<lparr>cache := c', goroutines := (goroutines b)[i := g]\<rparr>"
proof -
  from assms have g: "\<not> ended b" and i: "i < length (goroutines b)"
    by (simp_all split: if_splits)
  with assms obtain code where sp: "goroutines b ! i = Spawned code"
    by (cases "goroutines b ! i") simp_all
  obtain g c' where run: "runGoroutine now code (cache b) = (g, c')" by fastforce
  with assms g i sp have "b' = b\<lparr>cache := c', goroutines := (goroutines b)[i := g]\<rparr>"
    by simp
  with g i sp run show ?thesis using that by blast
qed

lemma step_RecvErr:
  assumes "step (RecvErr i) b = Some b'"
  obtains code price err where "i < length (goroutines b)" "\<not> ended b"
    "returned b = None" "goroutines b ! i = AtErrSend code price err"
    "b' = b\<lparr>goroutines := (goroutines b)[i := AtResSend code price],
            returned := Some ([], Some err)\<rparr>"
proof -
  from assms have g: "\<not> ended b" and i: "i < length (goroutines b)"
    and r: "returned b = None"
    by (cases "returned b"; simp split: if_splits)+
  with assms obtain code price err where sp: "goroutines b ! i = AtErrSend code price err"
    by (cases "goroutines b ! i") simp_all
  with assms g i r have "b' = b\<lparr>goroutines := (goroutines b)[i := AtResSend code price],
            returned := Some ([], Some err)\<rparr>"
    by simp
  with g i r sp show ?thesis using that by blast
qed

lemma step_RecvRes:
  assumes "step (RecvRes i now) b = Some b'"
  obtains code price where "i < length (goroutines b)" "\<not> ended b"
    "returned b = None" "sending (goroutines b ! i) = Some (code, price)"
    "b' = receiveResult now code price (b\<lparr>goroutines := (goroutines b)[i := Finished]\<rparr>)"
proof -
  from assms have g: "\<not> ended b" and i: "i < length (goroutines b)"
    and r: "returned b = None"
    by (cases "returned b"; simp split: if_splits)+
  with assms obtain code price where sp: "sending (goroutines b ! i) = Some (code, price)"
    by (cases "sending (goroutines b ! i)") auto
  with assms g i r
  have "b' = receiveResult now code price (b\<lparr>goroutines := (goroutines b)[i := Finished]\<rparr>)"
    by simp
  with g i r sp show ?thesis using that by blast
qed

lemma step_SendClosed:
  assumes "step (SendClosed i) b = Some b'"
  obtains "i < length (goroutines b)" "\<not> ended b"
    "returned b \<noteq> None" "goroutines b ! i \<noteq> Finished" "0 < weight (goroutines b ! i)"
    "b' = b\<lparr>goroutines := (goroutines b)[i := Panicked]\<rparr>"
proof -
  from assms have g: "\<not> ended b" and i: "i < length (goroutines b)"
    and r: "returned b \<noteq> None"
    by (cases "returned b"; simp split: if_splits)+
  with assms have "goroutines b ! i \<noteq> Finished" "0 < weight (goroutines b ! i)"
      "b' = b\<lparr>goroutines := (goroutines b)[i := Panicked]\<rparr>"
    by (cases "goroutines b ! i"; simp)+
  with g i r show ?thesis using that by blast
qed

lemma step_MapRace:
  assumes "step (MapRace i j) b = Some b'"
  obtains code' code price where "i < length (goroutines b)" "j < length (goroutines b)"
    "\<not> ended b" "returned b = None" "goroutines b ! j = Spawned code'"
    "sending (goroutines b ! i) = Some (code, price)"
    "b' = b\<lparr>goroutines := (goroutines b)[i := Finished, j := Fatal],
            results := results b @ [price]\<rparr>"
proof -
  from assms have g: "\<not> ended b" and i: "i < length (goroutines b)"
    and j: "j < length (goroutines b)" and r: "returned b = None"
    by (cases "returned b"; simp split: if_splits)+
  with assms obtain code' where sp: "goroutines b ! j = Spawned code'"
    by (cases "goroutines b ! j") simp_all
  with assms g i j r obtain code price where
    se: "sending (goroutines b ! i) = Some (code, price)"
    by (cases "sending (goroutines b ! i)") auto
  with assms g i j r sp
  have "b' = b\<lparr>goroutines := (goroutines b)[i := Finished, j := Fatal],
            results := results b @ [price]\<rparr>"
    by simp
  with g i j r sp se show ?thesis using that by blast
qed

lemma receiveResult_fields:
  "cache (receiveResult now code price b) =
     (cache b)\<lparr>prices := (prices (cache b))(code \<mapsto>
        \<lparr>Price = price, Expiration = now + maxAge (cache b)\<rparr>)\<rparr>"
  "itemCodes (receiveResult now code price b) = itemCodes b"
  "goroutines (receiveResult now code price b) = goroutines b"
  "results (receiveResult now code price b) = results b @ [price]"
  "returned (receiveResult now code price b) =
     (if Suc (length (results b)) = length (itemCodes b)
      then Some (results b @ [price], None) else None)"
  by (simp_all add: receiveResult_def planExpiration_def Let_def)

text \<open>Only the receipt of a result changes the map, and it sets the entry of one key.\<close>

lemma step_prices:
  assumes "step ev b = Some b'"
  shows "prices (cache b') = prices (cache b) \<or>
    (\<exists>i t code p. ev = RecvRes i t \<and> sending (goroutines b ! i) = Some (code, p) \<and>
       invoked (cache b') = invoked (cache b) \<and>
       prices (cache b') = (prices (cache b))(code \<mapsto>
          \<lparr>Price = p, Expiration = t + maxAge (cache b)\<rparr>))"
proof (cases ev)
  case (Run i now)
  with assms have "step (Run i now) b = Some b'" by simp
  then obtain code g c' where run: "runGoroutine now code (cache b) = (g, c')"
    and b': "b' = b\<lparr>cache := c', goroutines := (goroutines b)[i := g]\<rparr>"
    by (rule step_Run)
  from run have "prices c' = prices (cache b)" by (cases rule: runGoroutine_cases) simp_all
  with b' show ?thesis by simp
next
  case (RecvErr i)
  with assms have "step (RecvErr i) b = Some b'" by simp
  then have "cache b' = cache b" by (rule step_RecvErr) simp
  then show ?thesis by simp
next
  case (RecvRes i now)
  with assms have "step (RecvRes i now) b = Some b'" by simp
  then obtain code price where "sending (goroutines b ! i) = Some (code, price)"
    "b' = receiveResult now code price (b\<lparr>goroutines := (goroutines b)[i := Finished]\<rparr>)"
    by (rule step_RecvRes)
  with RecvRes show ?thesis by (simp add: receiveResult_fields)
next
  case (SendClosed i)
  with assms have "step (SendClosed i) b = Some b'" by simp
  then have "cache b' = cache b" by (rule step_SendClosed) simp
  then show ?thesis by simp
next
  case (MapRace i j)
  with assms have "step (MapRace i j) b = Some b'" by simp
  then have "cache b' = cache b" by (rule step_MapRace) simp
  then show ?thesis by simp
qed

subsection \<open>Order of the results\<close>

text \<open>
  Claim C1. The claim asks for the prices in the order of the item codes. The loop appends
  each price when it arrives: with the codes \<open>a\<close> (price \<open>1\<close>) and \<open>b\<close> (price
  \<open>2\<close>), the schedule in which the result of \<open>b\<close> is taken first makes the call
  return \<open>[2, 1]\<close>, and the other one \<open>[1, 2]\<close>; the collaborator was asked in the
  same order in both.
\<close>

theorem GetPricesFor_arrival_order:
  "map_option returned
     (GetPricesFor [Run 0 5, Run 1 5, RecvRes 1 6, RecvRes 0 7] [''a'', ''b''] ab_cache)
   = Some (Some ([2, 1], None)) \<and>
   map_option returned
     (GetPricesFor [Run 0 5, Run 1 5, RecvRes 0 6, RecvRes 1 7] [''a'', ''b''] ab_cache)
   = Some (Some ([1, 2], None)) \<and>
   map_option (\<lambda>b. invoked (cache b))
     (GetPricesFor [Run 0 5, Run 1 5, RecvRes 1 6, RecvRes 0 7] [''a'', ''b''] ab_cache)
   = Some [(''a'', 1, None), (''b'', 2, None)]"
  by (simp add: batch_defs ex_defs ab_cache_def)

subsection \<open>No item codes\<close>

text \<open>
  Claim C3. The claim asks that a call without item codes returns the empty slice and no
  error. With no item codes no goroutine is started, the loop has not returned when it is
  entered, and no step is possible: the \<^verbatim>\<open>select\<close> waits forever, and the call never
  returns.
\<close>

theorem GetPricesFor_empty_blocks:
  "map_option returned (GetPricesFor [] [] c) = Some None \<and>
   step e (spawn [] c) = None \<and>
   GetPricesFor (e # es) [] c = None"
proof -
  have "step e (spawn [] c) = None" by (cases e) (simp_all add: spawn_def)
  moreover have "returned (spawn [] c) = None" by (simp add: spawn_def)
  ultimately show ?thesis by (simp add: GetPricesFor_def)
qed

subsection \<open>Sends after the return\<close>

text \<open>
  Claim C9. The claim asks that a goroutine can still deliver after the call has returned
  on an error. For the single code \<open>p1\<close> and a failing collaborator: once the loop has
  taken the error the call has returned and closed the channels, the goroutine stands at
  its send on \<^verbatim>\<open>ch\<close>, no receive can take it, and the send panics.
\<close>

theorem GetPricesFor_error_then_panic:
  "map_option (\<lambda>b. (returned b, goroutines b))
     (GetPricesFor [Run 0 5, RecvErr 0] [''p1''] stale_cache)
   = Some (Some ([], Some ''boom''), [AtResSend ''p1'' 0]) \<and>
   map_option (step (RecvRes 0 t)) (GetPricesFor [Run 0 5, RecvErr 0] [''p1''] stale_cache)
   = Some None \<and>
   map_option (\<lambda>b. (returned b, goroutines b))
     (GetPricesFor [Run 0 5, RecvErr 0, SendClosed 0] [''p1''] stale_cache)
   = Some (Some ([], Some ''boom''), [Panicked])"
  by (simp add: batch_defs ex_defs)

subsection \<open>A failed fetch and the unguarded map\<close>

lemma race_run:
  "GetPricesFor [Run 0 5, Run 1 5, MapRace 1 2] [''bad'', ''ok'', ''late''] mixed_cache
     = Some race_final"
  by (simp add: batch_defs ex_defs mixed_cache_def race_final_def svc_mixed_def)

text \<open>
  Claim C2. The claim asks that a batch in which a fetch fails returns an error and no
  results. For the codes \<open>bad\<close>, \<open>ok\<close> and \<open>late\<close>: the fetch of \<open>bad\<close> has
  failed and its goroutine waits to send the error, the price of \<open>ok\<close> is ready, the
  \<^verbatim>\<open>select\<close> takes the price, and while the loop stores it the goroutine of \<open>late\<close>
  reads the map. The runtime ends the program: the call has not returned and no step is
  possible any more.
\<close>

theorem GetPricesFor_failed_fetch_then_map_race:
  "GetPricesFor [Run 0 5, Run 1 5, MapRace 1 2] [''bad'', ''ok'', ''late''] mixed_cache
     = Some race_final \<and>
   invoked (cache race_final) = [(''bad'', 0, Some ''boom''), (''ok'', 10, None)] \<and>
   goroutines race_final = [AtErrSend ''bad'' 0 ''boom'', Finished, Fatal] \<and>
   returned race_final = None \<and>
   step e race_final = None"
proof -
  have "step e race_final = None"
    by (cases e) (simp_all add: race_final_def ended_def)
  with race_run show ?thesis by (simp add: race_final_def)
qed

section \<open>Properties of the runs of batch retrieval\<close>

subsection \<open>Counting\<close>

lemma length_filter_update:
  "i < length xs \<Longrightarrow>
   length (filter P (xs[i := y])) + (if P (xs ! i) then 1 else 0) =
   length (filter P xs) + (if P y then 1 else 0)"
proof (induction xs arbitrary: i)
  case Nil
  then show ?case by simp
next
  case (Cons x xs)
  show ?case
  proof (cases i)
    case 0
    then show ?thesis by simp
  next
    case (Suc j)
    with Cons.prems have "j < length xs" by simp
    from Cons.IH [OF this] Suc show ?thesis by simp
  qed
qed

lemma finishedCount_update_same:
  "i < length gs \<Longrightarrow> gs ! i \<noteq> Finished \<Longrightarrow> g \<noteq> Finished \<Longrightarrow>
   finishedCount (gs[i := g]) = finishedCount gs"
  using length_filter_update [of i gs "\<lambda>g. g = Finished" g]
  by (simp add: finishedCount_def)

lemma finishedCount_update_Finished:
  "i < length gs \<Longrightarrow> gs ! i \<noteq> Finished \<Longrightarrow>
   finishedCount (gs[i := Finished]) = Suc (finishedCount gs)"
  using length_filter_update [of i gs "\<lambda>g. g = Finished" Finished]
  by (simp add: finishedCount_def)

lemma finishedCount_all:
  assumes "finishedCount gs = length gs" and "g \<in> set gs"
  shows "g = Finished"
proof (rule ccontr)
  assume "g \<noteq> Finished"
  with assms(2) have "length (filter (\<lambda>g. g = Finished) gs) < length gs"
    by (rule length_filter_less)
  with assms(1) show False by (simp add: finishedCount_def)
qed

lemma not_Panicked_update:
  "Panicked \<notin> set gs \<Longrightarrow> g \<noteq> Panicked \<Longrightarrow> Panicked \<notin> set (gs[i := g])"
  using set_update_subset_insert [of gs i g] by auto

lemma atErrSend_kept:
  assumes "j < length gs" "atErrSend (gs ! j)" "\<not> atErrSend (gs ! i)"
  shows "\<exists>j < length (gs[i := g]). atErrSend (gs[i := g] ! j)"
proof -
  from assms have "j \<noteq> i" by auto
  with assms(1,2) have "j < length (gs[i := g]) \<and> atErrSend (gs[i := g] ! j)" by simp
  then show ?thesis by blast
qed

lemma sending_not:
  assumes "sending g = Some (code, price)"
  shows "g \<noteq> Finished" "\<not> atErrSend g" "weight g = 1"
  using sending_cases [OF assms] by auto

lemma failedSince_append:
  "n \<le> length (invoked (cache b)) \<Longrightarrow> invoked (cache b') = invoked (cache b) @ [(k, p, eo)] \<Longrightarrow>
   failedSince n b' = (failedSince n b \<or> eo \<noteq> None)"
  by (auto simp: failedSince_def)

lemma failedSince_same:
  "invoked (cache b') = invoked (cache b) \<Longrightarrow> failedSince n b' = failedSince n b"
  by (simp add: failedSince_def)

subsection \<open>The invariant\<close>

lemma batchInv_Run:
  assumes inv: "batchInv n b" and st: "step (Run i now) b = Some b'"
  shows "batchInv n b'"
proof -
  from st obtain code g c' where i: "i < length (goroutines b)"
    and sp: "goroutines b ! i = Spawned code"
    and run: "runGoroutine now code (cache b) = (g, c')"
    and b': "b' = b\<lparr>cache := c', goroutines := (goroutines b)[i := g]\<rparr>"
    by (rule step_Run)
  from inv have len: "length (goroutines b) = length (itemCodes b)"
    and n: "n \<le> length (invoked (cache b))"
    by (simp_all add: batchInv_def)
  from run have g: "g \<noteq> Finished" "g \<noteq> Panicked"
    and log: "invoked c' = invoked (cache b) \<or>
      (\<exists>p eo. invoked c' = invoked (cache b) @ [(code, p, eo)] \<and> (eo \<noteq> None \<longrightarrow> atErrSend g))"
    by (cases rule: runGoroutine_cases; simp)+
  from log n b' have n': "n \<le> length (invoked (cache b'))" by auto
  from log b' n have fs: "failedSince n b' \<Longrightarrow> failedSince n b \<or> atErrSend g"
    using failedSince_append [of n b b'] failedSince_same [of b' b n] by auto
  show ?thesis
  proof (cases "returned b")
    case None
    with inv have np: "Panicked \<notin> set (goroutines b)"
      and cnt: "length (results b) = finishedCount (goroutines b)"
      and err: "failedSince n b \<Longrightarrow> \<exists>j < length (goroutines b). atErrSend (goroutines b ! j)"
      by (auto simp: batchInv_def)
    have "failedSince n b' \<longrightarrow>
        (\<exists>j < length (goroutines b'). atErrSend (goroutines b' ! j))"
    proof
      assume "failedSince n b'"
      from fs [OF this] show "\<exists>j < length (goroutines b'). atErrSend (goroutines b' ! j)"
      proof
        assume "failedSince n b"
        from err [OF this] obtain j where "j < length (goroutines b)" "atErrSend (goroutines b ! j)"
          by blast
        from atErrSend_kept [OF this, of i g] sp b' show ?thesis by simp
      next
        assume "atErrSend g"
        with i b' have "i < length (goroutines b') \<and> atErrSend (goroutines b' ! i)" by simp
        then show ?thesis by blast
      qed
    qed
    with None len n' np cnt g i sp b' show ?thesis
      by (simp add: batchInv_def not_Panicked_update finishedCount_update_same)
  next
    case (Some r)
    obtain rs eo where r: "r = (rs, eo)" by (cases r)
    show ?thesis
    proof (cases eo)
      case None
      with Some r inv have "\<forall>g \<in> set (goroutines b). g = Finished"
        by (simp add: batchInv_def)
      with i have "goroutines b ! i = Finished" by simp
      with sp show ?thesis by simp
    next
      case (Some e)
      with \<open>returned b = Some r\<close> r inv len n' b' show ?thesis
        by (simp add: batchInv_def)
    qed
  qed
qed

lemma batchInv_RecvErr:
  assumes inv: "batchInv n b" and st: "step (RecvErr i) b = Some b'"
  shows "batchInv n b'"
proof -
  from st obtain code price err where
    b': "b' = b\<lparr>goroutines := (goroutines b)[i := AtResSend code price],
            returned := Some ([], Some err)\<rparr>"
    by (rule step_RecvErr)
  with inv show ?thesis by (simp add: batchInv_def)
qed

lemma batchInv_SendClosed:
  assumes inv: "batchInv n b" and st: "step (SendClosed i) b = Some b'"
  shows "batchInv n b'"
proof -
  from st have i: "i < length (goroutines b)" and r: "returned b \<noteq> None"
    and nf: "goroutines b ! i \<noteq> Finished"
    and b': "b' = b\<lparr>goroutines := (goroutines b)[i := Panicked]\<rparr>"
    by (rule step_SendClosed; simp)+
  from r obtain rs eo where ret: "returned b = Some (rs, eo)" by (cases "returned b") auto
  show ?thesis
  proof (cases eo)
    case None
    with ret inv have "\<forall>g \<in> set (goroutines b). g = Finished"
      by (simp add: batchInv_def)
    with i have "goroutines b ! i = Finished" by simp
    with nf show ?thesis by simp
  next
    case (Some e)
    with ret inv b' show ?thesis by (simp add: batchInv_def)
  qed
qed

lemma batchInv_RecvRes:
  assumes inv: "batchInv n b" and st: "step (RecvRes i now) b = Some b'"
  shows "batchInv n b'"
proof -
  from st obtain code price where i: "i < length (goroutines b)"
    and ret: "returned b = None"
    and sp: "sending (goroutines b ! i) = Some (code, price)"
    and b': "b' = receiveResult now code price (b\<lparr>goroutines := (goroutines b)[i := Finished]\<rparr>)"
    by (rule step_RecvRes)
  note nf = sending_not(1,2) [OF sp]
  from inv ret have len: "length (goroutines b) = length (itemCodes b)"
    and n: "n \<le> length (invoked (cache b))"
    and np: "Panicked \<notin> set (goroutines b)"
    and cnt: "length (results b) = finishedCount (goroutines b)"
    and err: "failedSince n b \<Longrightarrow> \<exists>j < length (goroutines b). atErrSend (goroutines b ! j)"
    by (auto simp: batchInv_def)
  from b' have gs': "goroutines b' = (goroutines b)[i := Finished]"
    and ic': "itemCodes b' = itemCodes b"
    and log': "invoked (cache b') = invoked (cache b)"
    and res': "results b' = results b @ [price]"
    by (simp_all add: receiveResult_fields)
  from i nf cnt gs' res' have cnt': "length (results b') = finishedCount (goroutines b')"
    by (simp add: finishedCount_update_Finished)
  from log' have fs: "failedSince n b' = failedSince n b" by (rule failedSince_same)
  have err': "failedSince n b' \<longrightarrow> (\<exists>j < length (goroutines b'). atErrSend (goroutines b' ! j))"
  proof
    assume "failedSince n b'"
    with fs err obtain j where "j < length (goroutines b)" "atErrSend (goroutines b ! j)"
      by blast
    from atErrSend_kept [OF this nf(2), of Finished] gs'
    show "\<exists>j < length (goroutines b'). atErrSend (goroutines b' ! j)" by simp
  qed
  from np gs' have np': "Panicked \<notin> set (goroutines b')" by (simp add: not_Panicked_update)
  show ?thesis
  proof (cases "Suc (length (results b)) = length (itemCodes b)")
    case True
    with b' have ret': "returned b' = Some (results b @ [price], None)"
      by (simp add: receiveResult_fields)
    from True cnt' res' len gs' have "finishedCount (goroutines b') = length (goroutines b')"
      by simp
    then have all: "\<forall>g \<in> set (goroutines b'). g = Finished"
      using finishedCount_all by blast
    have "\<not> failedSince n b'"
    proof
      assume "failedSince n b'"
      with err' obtain j where "j < length (goroutines b')" "atErrSend (goroutines b' ! j)"
        by blast
      moreover from this(1) all have "goroutines b' ! j = Finished" by simp
      ultimately show False by simp
    qed
    with ret' all len gs' ic' log' n show ?thesis by (simp add: batchInv_def)
  next
    case False
    with b' have "returned b' = None" by (simp add: receiveResult_fields)
    with np' cnt' err' len gs' ic' log' n show ?thesis by (simp add: batchInv_def)
  qed
qed

lemma batchInv_MapRace:
  assumes inv: "batchInv n b" and st: "step (MapRace i j) b = Some b'"
  shows "batchInv n b'"
proof -
  from st obtain code' code price where i: "i < length (goroutines b)"
    and j: "j < length (goroutines b)"
    and ret: "returned b = None"
    and spj: "goroutines b ! j = Spawned code'"
    and sp: "sending (goroutines b ! i) = Some (code, price)"
    and b': "b' = b\<lparr>goroutines := (goroutines b)[i := Finished, j := Fatal],
            results := results b @ [price]\<rparr>"
    by (rule step_MapRace)
  note nf = sending_not(1,2) [OF sp]
  from sp spj have ij: "i \<noteq> j" by auto
  from inv ret have len: "length (goroutines b) = length (itemCodes b)"
    and n: "n \<le> length (invoked (cache b))"
    and np: "Panicked \<notin> set (goroutines b)"
    and cnt: "length (results b) = finishedCount (goroutines b)"
    and err: "failedSince n b \<Longrightarrow> \<exists>j < length (goroutines b). atErrSend (goroutines b ! j)"
    by (auto simp: batchInv_def)
  let ?gs1 = "(goroutines b)[i := Finished]"
  from i nf have c1: "finishedCount ?gs1 = Suc (finishedCount (goroutines b))"
    by (simp add: finishedCount_update_Finished)
  from j ij spj have "finishedCount (?gs1[j := Fatal]) = finishedCount ?gs1"
    by (simp add: finishedCount_update_same)
  with c1 cnt b' have cnt': "length (results b') = finishedCount (goroutines b')" by simp
  from np have "Panicked \<notin> set (?gs1[j := Fatal])"
    by (simp add: not_Panicked_update)
  with b' have np': "Panicked \<notin> set (goroutines b')" by simp
  from b' have fs: "failedSince n b' = failedSince n b" by (simp add: failedSince_def)
  have err': "failedSince n b' \<longrightarrow> (\<exists>k < length (goroutines b'). atErrSend (goroutines b' ! k))"
  proof
    assume "failedSince n b'"
    with fs err obtain k where k: "k < length (goroutines b)" "atErrSend (goroutines b ! k)"
      by blast
    with nf(2) spj have "k \<noteq> i" "k \<noteq> j" by auto
    with k b' have "k < length (goroutines b') \<and> atErrSend (goroutines b' ! k)" by simp
    then show "\<exists>k < length (goroutines b'). atErrSend (goroutines b' ! k)" by blast
  qed
  from b' ret have "returned b' = None" by simp
  with np' cnt' err' len n b' show ?thesis by (simp add: batchInv_def)
qed

lemma batchInv_step:
  "batchInv n b \<Longrightarrow> step e b = Some b' \<Longrightarrow> batchInv n b'"
  by (cases e)
    (auto intro: batchInv_Run batchInv_RecvErr batchInv_RecvRes batchInv_SendClosed
      batchInv_MapRace)

lemma batchInv_exec:
  "batchInv n b \<Longrightarrow> exec es b = Some b' \<Longrightarrow> batchInv n b'"
proof (induction es arbitrary: b)
  case Nil
  then show ?case by simp
next
  case (Cons e es)
  from Cons.prems(2) obtain b1 where "step e b = Some b1" "exec es b1 = Some b'"
    by (auto split: option.splits)
  with Cons.IH batchInv_step [OF Cons.prems(1)] show ?case by blast
qed

lemma batchInv_spawn: "batchInv (length (invoked c)) (spawn codes c)"
  by (auto simp: batchInv_def spawn_def failedSince_def finishedCount_def)

subsection \<open>Every run is finite\<close>

lemma weight_update_le:
  assumes "i < length gs" and "weight g \<le> weight (gs ! i)"
  shows "sum_list (map weight (gs[i := g])) \<le> sum_list (map weight gs)"
  using assms
proof (induction gs arbitrary: i)
  case Nil
  then show ?case by simp
next
  case (Cons x xs)
  show ?case
  proof (cases i)
    case 0
    with Cons.prems show ?thesis by simp
  next
    case (Suc j)
    with Cons.prems have "j < length xs" "weight g \<le> weight (xs ! j)" by simp_all
    from Cons.IH [OF this] Suc show ?thesis by simp
  qed
qed

lemma weight_update_less:
  assumes "i < length gs" and "weight g < weight (gs ! i)"
  shows "sum_list (map weight (gs[i := g])) < sum_list (map weight gs)"
  using assms
proof (induction gs arbitrary: i)
  case Nil
  then show ?case by simp
next
  case (Cons x xs)
  show ?case
  proof (cases i)
    case 0
    with Cons.prems show ?thesis by simp
  next
    case (Suc j)
    with Cons.prems have "j < length xs" "weight g < weight (xs ! j)" by simp_all
    from Cons.IH [OF this] Suc show ?thesis by simp
  qed
qed

lemma step_pending:
  assumes "step e b = Some b'"
  shows "pending b' < pending b"
proof (cases e)
  case (Run i now)
  with assms have "step (Run i now) b = Some b'" by simp
  then obtain code g c' where i: "i < length (goroutines b)"
    and sp: "goroutines b ! i = Spawned code"
    and run: "runGoroutine now code (cache b) = (g, c')"
    and b': "b' = b\<lparr>cache := c', goroutines := (goroutines b)[i := g]\<rparr>"
    by (rule step_Run)
  from run have "weight g < 3" by (cases rule: runGoroutine_cases) simp_all
  with i sp b' show ?thesis by (simp add: pending_def weight_update_less)
next
  case (RecvErr i)
  with assms have "step (RecvErr i) b = Some b'" by simp
  then obtain code price err where "i < length (goroutines b)"
    "goroutines b ! i = AtErrSend code price err"
    "b' = b\<lparr>goroutines := (goroutines b)[i := AtResSend code price],
            returned := Some ([], Some err)\<rparr>"
    by (rule step_RecvErr)
  then show ?thesis by (simp add: pending_def weight_update_less)
next
  case (RecvRes i now)
  with assms have "step (RecvRes i now) b = Some b'" by simp
  then obtain code price where "i < length (goroutines b)"
    "sending (goroutines b ! i) = Some (code, price)"
    "b' = receiveResult now code price (b\<lparr>goroutines := (goroutines b)[i := Finished]\<rparr>)"
    by (rule step_RecvRes)
  then show ?thesis
    by (simp add: pending_def weight_update_less receiveResult_fields sending_not(3))
next
  case (SendClosed i)
  with assms have "step (SendClosed i) b = Some b'" by simp
  then have "i < length (goroutines b)" "0 < weight (goroutines b ! i)"
    "b' = b\<lparr>goroutines := (goroutines b)[i := Panicked]\<rparr>"
    by (rule step_SendClosed; simp)+
  then show ?thesis by (simp add: pending_def weight_update_less)
next
  case (MapRace i j)
  with assms have "step (MapRace i j) b = Some b'" by simp
  then obtain code' code price where i: "i < length (goroutines b)"
    and j: "j < length (goroutines b)"
    and se: "sending (goroutines b ! i) = Some (code, price)"
    and b': "b' = b\<lparr>goroutines := (goroutines b)[i := Finished, j := Fatal],
            results := results b @ [price]\<rparr>"
    by (rule step_MapRace)
  let ?gs1 = "(goroutines b)[i := Finished]"
  from i se have "sum_list (map weight ?gs1) < sum_list (map weight (goroutines b))"
    by (simp add: weight_update_less sending_not(3))
  moreover from j have "sum_list (map weight (?gs1[j := Fatal])) \<le> sum_list (map weight ?gs1)"
    by (simp add: weight_update_le)
  ultimately show ?thesis using b' by (simp add: pending_def)
qed

lemma exec_pending:
  "exec es b = Some b' \<Longrightarrow> length es + pending b' \<le> pending b"
proof (induction es arbitrary: b)
  case Nil
  then show ?case by simp
next
  case (Cons e es)
  from Cons.prems obtain b1 where s: "step e b = Some b1" and r: "exec es b1 = Some b'"
    by (auto split: option.splits)
  from Cons.IH [OF r] step_pending [OF s] show ?case by simp
qed

lemma pending_spawn: "pending (spawn codes c) = 3 * length codes"
  by (induction codes) (simp_all add: pending_def spawn_def)

subsection \<open>What a batch with a failed fetch can return\<close>

text \<open>
  Take any schedule of a call and the state it leads to, and let a fetch of the batch
  have failed. The schedule has at most three steps per item code. If the call has
  returned, it has returned the \<^verbatim>\<open>nil\<close> slice and an error, whatever results the loop
  had collected. If it has not, either the runtime has ended the program or the loop can
  take an error.
\<close>

lemma failed_batch_outcome:
  assumes run: "GetPricesFor sched codes c = Some b"
    and failed: "failedSince (length (invoked c)) b"
  shows "length sched \<le> 3 * length codes \<and>
         (returned b = None \<longrightarrow>
            Fatal \<in> set (goroutines b) \<or> (\<exists>i. step (RecvErr i) b \<noteq> None)) \<and>
         (returned b \<noteq> None \<longrightarrow> (\<exists>err. returned b = Some ([], Some err)))"
proof (intro conjI impI)
  from run have ex: "exec sched (spawn codes c) = Some b" by (simp add: GetPricesFor_def)
  from exec_pending [OF ex] show "length sched \<le> 3 * length codes"
    by (simp add: pending_spawn)
  from batchInv_exec [OF batchInv_spawn ex] have inv: "batchInv (length (invoked c)) b" .
  {
    assume none: "returned b = None"
    with inv failed obtain j where j: "j < length (goroutines b)"
      and at: "atErrSend (goroutines b ! j)"
      and np: "Panicked \<notin> set (goroutines b)"
      by (auto simp: batchInv_def)
    show "Fatal \<in> set (goroutines b) \<or> (\<exists>i. step (RecvErr i) b \<noteq> None)"
    proof (cases "Fatal \<in> set (goroutines b)")
      case True
      then show ?thesis ..
    next
      case False
      with at j np none have "step (RecvErr j) b \<noteq> None"
        by (cases "goroutines b ! j") (simp_all add: ended_def)
      then show ?thesis by blast
    qed
  }
  {
    assume "returned b \<noteq> None"
    then obtain rs eo where ret: "returned b = Some (rs, eo)" by (cases "returned b") auto
    show "\<exists>err. returned b = Some ([], Some err)"
    proof (cases eo)
      case None
      with ret inv failed show ?thesis by (simp add: batchInv_def)
    next
      case (Some e)
      with ret inv show ?thesis by (simp add: batchInv_def)
    qed
  }
qed

lemma mixed_run:
  "GetPricesFor [Run 0 5, Run 1 5, RecvRes 0 6, RecvErr 1] [''ok'', ''bad''] mixed_cache
     = Some mixed_final"
  by (simp add: batch_defs ex_defs mixed_cache_def mixed_final_def svc_mixed_def)

section \<open>The entries of the map\<close>

subsection \<open>Keys\<close>

lemma fetchPrice_dom:
  assumes "fetchPrice t k c = (r, c')"
  shows "dom (prices c) \<subseteq> dom (prices c')"
  using assms by (cases rule: fetchPrice_cases) auto

lemma GetPriceFor_dom:
  assumes "GetPriceFor now now' k c = (r, c')"
  shows "dom (prices c) \<subseteq> dom (prices c')"
  using assms
proof (cases rule: GetPriceFor_cases)
  case (hit item)
  then show ?thesis by simp
next
  case miss
  from miss(1) show ?thesis by (rule fetchPrice_dom)
qed

lemma step_dom:
  assumes "step ev b = Some b'"
  shows "dom (prices (cache b)) \<subseteq> dom (prices (cache b'))"
  using step_prices [OF assms] by auto

lemma exec_dom:
  "exec es b = Some b' \<Longrightarrow> dom (prices (cache b)) \<subseteq> dom (prices (cache b'))"
proof (induction es arbitrary: b)
  case Nil
  then show ?case by simp
next
  case (Cons e es)
  from Cons.prems obtain b1 where s: "step e b = Some b1" and r: "exec es b1 = Some b'"
    by (auto split: option.splits)
  from step_dom [OF s] Cons.IH [OF r] show ?case by blast
qed

text \<open>The revision that deletes expired items.\<close>

lemma GetPriceFor_purging_cases:
  assumes "GetPriceFor_purging now now' k c = (r, c')"
  obtains (hit) item where "prices c k = Some item" "\<not> IsExpired now item"
      "r = (Price item, None)" "c' = c"
  | (absent) "prices c k = None" "fetchPrice now' k c = (r, c')"
  | (expired) item where "prices c k = Some item" "IsExpired now item"
      "fetchPrice now' k (c\<lparr>prices := (prices c)(k := None)\<rparr>) = (r, c')"
proof (cases "prices c k")
  case None
  with assms absent show ?thesis by (simp add: GetPriceFor_purging_def)
next
  case (Some item)
  show ?thesis
  proof (cases "IsExpired now item")
    case True
    with Some assms expired show ?thesis by (simp add: GetPriceFor_purging_def)
  next
    case False
    with Some assms have "r = (Price item, None)" "c' = c"
      by (simp_all add: GetPriceFor_purging_def)
    with Some False hit show ?thesis by blast
  qed
qed

lemma GetPriceFor_purging_keeps_others:
  assumes "GetPriceFor_purging now now' k c = (r, c')"
  shows "dom (prices c) - {k} \<subseteq> dom (prices c')"
  using assms
proof (cases rule: GetPriceFor_purging_cases)
  case (hit item)
  then show ?thesis by auto
next
  case absent
  from absent(2) show ?thesis by (cases rule: fetchPrice_cases) auto
next
  case (expired item)
  from expired(3) show ?thesis by (cases rule: fetchPrice_cases) auto
qed

text \<open>The requested key is lost exactly when its item was expired and the collaborator
  failed.\<close>

lemma GetPriceFor_purging_removes_iff:
  assumes run: "GetPriceFor_purging now now' k c = (r, c')" and k: "k \<in> dom (prices c)"
  shows "(k \<notin> dom (prices c')) =
         (\<exists>item p e. prices c k = Some item \<and> IsExpired now item \<and>
            invoked c' = invoked c @ [(k, p, Some e)])"
  using run
proof (cases rule: GetPriceFor_purging_cases)
  case (hit item)
  with k show ?thesis by auto
next
  case absent
  with k show ?thesis by auto
next
  case (expired item)
  from expired(3) show ?thesis
  proof (cases rule: fetchPrice_cases)
    case (fail p e)
    with expired(1,2) show ?thesis by simp
  next
    case (ok p)
    then show ?thesis by simp
  qed
qed

text \<open>The steps of a goroutine in the batch of that revision.\<close>

lemma storeInGoroutine_cache:
  "snd (storeInGoroutine now code c) = snd (fetchPrice now code c)"
proof (cases "fetchPrice now code c")
  case (Pair r c')
  obtain p eo where "r = (p, eo)" by (cases r)
  with Pair show ?thesis by (cases eo) (simp_all add: storeInGoroutine_def)
qed

lemma pstep_PLookup:
  assumes "pstep (PLookup i now) b = Some b'"
  obtains code where "i < length (pgoroutines b)" "pgoroutines b ! i = PSpawned code"
    "b' = b\<lparr>pgoroutines := (pgoroutines b)[i := lookupInGoroutine now code (pcache b)]\<rparr>"
proof -
  from assms have i: "i < length (pgoroutines b)" and e: "\<not> pended b"
    by (simp_all split: if_splits)
  with assms obtain code where sp: "pgoroutines b ! i = PSpawned code"
    by (cases "pgoroutines b ! i") simp_all
  with assms i e
  have "b' = b\<lparr>pgoroutines := (pgoroutines b)[i := lookupInGoroutine now code (pcache b)]\<rparr>"
    by simp
  with i sp show ?thesis using that by blast
qed

lemma pstep_PDelete:
  assumes "pstep (PDelete i) b = Some b'"
  obtains code where "i < length (pgoroutines b)" "pgoroutines b ! i = PDeleting code"
    "b' = b\<lparr>pcache := (pcache b)\<lparr>prices := (prices (pcache b))(code := None)\<rparr>,
            pgoroutines := (pgoroutines b)[i := PFetching code]\<rparr>"
proof -
  from assms have i: "i < length (pgoroutines b)" and e: "\<not> pended b"
    by (simp_all split: if_splits)
  with assms obtain code where sp: "pgoroutines b ! i = PDeleting code"
    by (cases "pgoroutines b ! i") simp_all
  with assms i e
  have "b' = b\<lparr>pcache := (pcache b)\<lparr>prices := (prices (pcache b))(code := None)\<rparr>,
            pgoroutines := (pgoroutines b)[i := PFetching code]\<rparr>"
    by simp
  with i sp show ?thesis using that by blast
qed

lemma pstep_PFetch:
  assumes "pstep (PFetch i now) b = Some b'"
  obtains code g c' where "i < length (pgoroutines b)"
    "pgoroutines b ! i = PFetching code" "storeInGoroutine now code (pcache b) = (g, c')"
    "b' = b\<lparr>pcache := c', pgoroutines := (pgoroutines b)[i := g]\<rparr>"
proof -
  from assms have i: "i < length (pgoroutines b)" and e: "\<not> pended b"
    by (simp_all split: if_splits)
  with assms obtain code where sp: "pgoroutines b ! i = PFetching code"
    by (cases "pgoroutines b ! i") simp_all
  obtain g c' where run: "storeInGoroutine now code (pcache b) = (g, c')" by fastforce
  with assms i e sp have "b' = b\<lparr>pcache := c', pgoroutines := (pgoroutines b)[i := g]\<rparr>"
    by simp
  with i sp run show ?thesis using that by blast
qed

text \<open>Only the deletion and the fetch of a goroutine change the cache.\<close>

lemma pstep_other:
  assumes "pstep ev b = Some b'" and "\<forall>i t. ev \<noteq> PDelete i \<and> ev \<noteq> PFetch i t"
  shows "pcache b' = pcache b"
proof (cases ev)
  case (PLookup i t)
  with assms(1) have "pstep (PLookup i t) b = Some b'" by simp
  then show ?thesis by (rule pstep_PLookup) simp
next
  case (PDelete i)
  with assms(2) show ?thesis by simp
next
  case (PFetch i t)
  with assms(2) show ?thesis by simp
next
  case (PRecvErr i)
  with assms(1) show ?thesis
    by (cases "pgoroutines b ! i") (auto split: if_splits)
next
  case (PRecvRes i)
  with assms(1) show ?thesis
    by (cases "pgoroutines b ! i") (auto simp: collectResult_def Let_def split: if_splits)
next
  case (PSendClosed i)
  with assms(1) show ?thesis
    by (cases "pgoroutines b ! i") (auto split: if_splits)
next
  case (PMapRace i j)
  with assms(1) show ?thesis by (auto split: if_splits)
qed

text \<open>A goroutine comes to the deletion exactly when its lookup finds the item expired.\<close>

lemma pstep_deleting_iff:
  assumes st: "pstep (PLookup i t) b = Some b'" and g: "pgoroutines b ! i = PSpawned k"
  shows "(pgoroutines b' ! i = PDeleting k) =
         (\<exists>item. prices (pcache b) k = Some item \<and> IsExpired t item)"
proof -
  from st obtain code where i: "i < length (pgoroutines b)"
    and sp: "pgoroutines b ! i = PSpawned code"
    and b': "b' = b\<lparr>pgoroutines := (pgoroutines b)[i := lookupInGoroutine t code (pcache b)]\<rparr>"
    by (rule pstep_PLookup)
  from sp g have "code = k" by simp
  with i b' have "pgoroutines b' ! i = lookupInGoroutine t k (pcache b)" by simp
  then show ?thesis
    by (cases "prices (pcache b) k") (simp_all add: lookupInGoroutine_def)
qed

text \<open>A step removes a key exactly when it is the deletion of a goroutine for that key.\<close>

lemma pstep_removes_iff:
  assumes st: "pstep ev b = Some b'" and k: "k \<in> dom (prices (pcache b))"
  shows "(k \<notin> dom (prices (pcache b'))) =
         (\<exists>i. ev = PDelete i \<and> pgoroutines b ! i = PDeleting k)"
proof (cases "\<exists>i t. ev = PDelete i \<or> ev = PFetch i t")
  case False
  with st have "pcache b' = pcache b" by (intro pstep_other) auto
  with k False show ?thesis by auto
next
  case True
  then obtain i t where "ev = PDelete i \<or> ev = PFetch i t" by blast
  then show ?thesis
  proof
    assume ev: "ev = PDelete i"
    with st have "pstep (PDelete i) b = Some b'" by simp
    then obtain code where sp: "pgoroutines b ! i = PDeleting code"
      and b': "b' = b\<lparr>pcache := (pcache b)\<lparr>prices := (prices (pcache b))(code := None)\<rparr>,
            pgoroutines := (pgoroutines b)[i := PFetching code]\<rparr>"
      by (rule pstep_PDelete)
    show ?thesis
    proof (cases "k = code")
      case True
      with b' ev sp show ?thesis by simp
    next
      case False
      with k b' ev sp show ?thesis by auto
    qed
  next
    assume ev: "ev = PFetch i t"
    with st have "pstep (PFetch i t) b = Some b'" by simp
    then obtain code g c' where run: "storeInGoroutine t code (pcache b) = (g, c')"
      and b': "b' = b\<lparr>pcache := c', pgoroutines := (pgoroutines b)[i := g]\<rparr>"
      by (rule pstep_PFetch)
    obtain r where f: "fetchPrice t code (pcache b) = (r, c')"
      using storeInGoroutine_cache [of t code "pcache b"] run
      by (cases "fetchPrice t code (pcache b)") simp
    from fetchPrice_dom [OF f] k b' have "k \<in> dom (prices (pcache b'))" by auto
    with ev show ?thesis by simp
  qed
qed

text \<open>The fetch of a goroutine stores its key exactly when the collaborator answers.\<close>

lemma pstep_stores_iff:
  assumes st: "pstep (PFetch i t) b = Some b'" and g: "pgoroutines b ! i = PFetching k"
  shows "(k \<in> dom (prices (pcache b'))) =
         (k \<in> dom (prices (pcache b)) \<or>
          (\<exists>p. invoked (pcache b') = invoked (pcache b) @ [(k, p, None)]))"
proof -
  from st obtain code g' c' where sp: "pgoroutines b ! i = PFetching code"
    and run: "storeInGoroutine t code (pcache b) = (g', c')"
    and b': "b' = b\<lparr>pcache := c', pgoroutines := (pgoroutines b)[i := g']\<rparr>"
    by (rule pstep_PFetch)
  from sp g have code: "code = k" by simp
  obtain r where f: "fetchPrice t k (pcache b) = (r, c')"
    using storeInGoroutine_cache [of t code "pcache b"] run code
    by (cases "fetchPrice t k (pcache b)") simp
  from f show ?thesis
  proof (cases rule: fetchPrice_cases)
    case (fail p e)
    with b' show ?thesis by simp
  next
    case (ok p)
    with b' show ?thesis by simp
  qed
qed

text \<open>
  The steps of one goroutine, taken one after the other with no step of another
  goroutine in between, change the cache as the call of \<open>GetPriceFor_purging\<close> does:
  lookup, deletion and fetch for an expired item, lookup and fetch for an absent one,
  the lookup alone for an item that is not expired.
\<close>

lemma pstep_call_expired:
  assumes l: "pstep (PLookup i now) b = Some bl" and d: "pstep (PDelete i) bl = Some bd"
    and f: "pstep (PFetch i now') bd = Some bf" and g: "pgoroutines b ! i = PSpawned k"
  shows "pcache bf = snd (GetPriceFor_purging now now' k (pcache b))"
proof -
  from l obtain code where i: "i < length (pgoroutines b)"
    and sp: "pgoroutines b ! i = PSpawned code"
    and bl: "bl = b\<lparr>pgoroutines := (pgoroutines b)[i := lookupInGoroutine now code (pcache b)]\<rparr>"
    by (rule pstep_PLookup)
  from sp g have code: "code = k" by simp
  from d obtain code' where spd: "pgoroutines bl ! i = PDeleting code'"
    and bd: "bd = bl\<lparr>pcache := (pcache bl)\<lparr>prices := (prices (pcache bl))(code' := None)\<rparr>,
            pgoroutines := (pgoroutines bl)[i := PFetching code']\<rparr>"
    by (rule pstep_PDelete)
  from bl i spd code have look: "lookupInGoroutine now k (pcache b) = PDeleting code'" by simp
  then obtain item where item: "prices (pcache b) k = Some item" "IsExpired now item"
    and code': "code' = k"
    by (cases "prices (pcache b) k") (auto simp: lookupInGoroutine_def split: if_splits)
  from f obtain code2 g2 c2 where spf: "pgoroutines bd ! i = PFetching code2"
    and run: "storeInGoroutine now' code2 (pcache bd) = (g2, c2)"
    and bf: "bf = bd\<lparr>pcache := c2, pgoroutines := (pgoroutines bd)[i := g2]\<rparr>"
    by (rule pstep_PFetch)
  from bd bl i spf code' have code2: "code2 = k" by simp
  from bd bl code' have cd: "pcache bd = (pcache b)\<lparr>prices := (prices (pcache b))(k := None)\<rparr>"
    by simp
  from item have "GetPriceFor_purging now now' k (pcache b) =
      fetchPrice now' k ((pcache b)\<lparr>prices := (prices (pcache b))(k := None)\<rparr>)"
    by (simp add: GetPriceFor_purging_def)
  with run bf cd code2 storeInGoroutine_cache [of now' k "pcache bd"] show ?thesis by simp
qed

lemma pstep_call_absent:
  assumes l: "pstep (PLookup i now) b = Some bl" and f: "pstep (PFetch i now') bl = Some bf"
    and g: "pgoroutines b ! i = PSpawned k"
  shows "pcache bf = snd (GetPriceFor_purging now now' k (pcache b))"
proof -
  from l obtain code where i: "i < length (pgoroutines b)"
    and sp: "pgoroutines b ! i = PSpawned code"
    and bl: "bl = b\<lparr>pgoroutines := (pgoroutines b)[i := lookupInGoroutine now code (pcache b)]\<rparr>"
    by (rule pstep_PLookup)
  from sp g have code: "code = k" by simp
  from f obtain code2 g2 c2 where spf: "pgoroutines bl ! i = PFetching code2"
    and run: "storeInGoroutine now' code2 (pcache bl) = (g2, c2)"
    and bf: "bf = bl\<lparr>pcache := c2, pgoroutines := (pgoroutines bl)[i := g2]\<rparr>"
    by (rule pstep_PFetch)
  from bl i spf code have look: "lookupInGoroutine now k (pcache b) = PFetching code2" by simp
  then have none: "prices (pcache b) k = None" and code2: "code2 = k"
    by (cases "prices (pcache b) k"; simp add: lookupInGoroutine_def split: if_splits)+
  from none have "GetPriceFor_purging now now' k (pcache b) = fetchPrice now' k (pcache b)"
    by (simp add: GetPriceFor_purging_def)
  with run bf bl code2 storeInGoroutine_cache [of now' k "pcache b"] show ?thesis by simp
qed

lemma pstep_call_hit:
  assumes l: "pstep (PLookup i now) b = Some bl" and g: "pgoroutines b ! i = PSpawned k"
    and h: "pgoroutines bl ! i = PAtResSend p"
  shows "GetPriceFor_purging now now' k (pcache b) = ((p, None), pcache bl)"
proof -
  from l obtain code where i: "i < length (pgoroutines b)"
    and sp: "pgoroutines b ! i = PSpawned code"
    and bl: "bl = b\<lparr>pgoroutines := (pgoroutines b)[i := lookupInGoroutine now code (pcache b)]\<rparr>"
    by (rule pstep_PLookup)
  from sp g have code: "code = k" by simp
  from bl i h code have look: "lookupInGoroutine now k (pcache b) = PAtResSend p" by simp
  then obtain item where "prices (pcache b) k = Some item" "\<not> IsExpired now item"
    "p = Price item"
    by (cases "prices (pcache b) k") (auto simp: lookupInGoroutine_def split: if_splits)
  with bl show ?thesis by (simp add: GetPriceFor_purging_def)
qed

text \<open>
  The revision of \<open>GetPriceFor\<close> that deletes an expired item loses the key when the
  collaborator then fails: \<open>p1\<close> is expired in \<open>stale_cache\<close> and is gone afterwards.
\<close>

theorem purging_removes_key_counterexample:
  "''p1'' \<in> dom (prices stale_cache) \<and>
   ''p1'' \<notin> dom (prices (snd (GetPriceFor_purging 5 6 ''p1'' stale_cache))) \<and>
   fst (GetPriceFor_purging 5 6 ''p1'' stale_cache) =
     (0, Some ''getting item from service : boom'')"
  by (simp add: ex_defs GetPriceFor_purging_def)

text \<open>
  Claim C8, amended. \<open>GetPriceFor\<close> and every run of \<open>GetPricesFor\<close> keep all keys of
  the map. In the revision that deletes expired items, \<open>GetPriceFor\<close> keeps all keys but
  the requested one, and it loses the requested key exactly when the item was expired
  and the collaborator failed. The goroutines of that revision's \<open>GetPricesFor\<close> do the
  same through \<open>GetPriceFor\<close>: a step of the batch removes a key exactly when it is the
  deletion of a goroutine for that key; a goroutine comes to the deletion exactly when
  its lookup finds the item expired; its fetch stores the key exactly when the
  collaborator answers; and lookup, deletion and fetch together change the cache as the
  call of \<open>GetPriceFor\<close> does.
\<close>

theorem store_keys_kept:
  "dom (prices c) \<subseteq> dom (prices (snd (GetPriceFor now now' k c))) \<and>
   (GetPricesFor sched codes c = Some b \<longrightarrow> dom (prices c) \<subseteq> dom (prices (cache b))) \<and>
   (GetPriceFor_purging now now' k c = (r, c') \<longrightarrow>
      dom (prices c) - {k} \<subseteq> dom (prices c') \<and>
      (k \<in> dom (prices c) \<longrightarrow>
         (k \<notin> dom (prices c')) =
         (\<exists>item p e. prices c k = Some item \<and> IsExpired now item \<and>
            invoked c' = invoked c @ [(k, p, Some e)]))) \<and>
   (pstep ev pb = Some pb' \<longrightarrow> k \<in> dom (prices (pcache pb)) \<longrightarrow>
      (k \<notin> dom (prices (pcache pb'))) =
      (\<exists>i. ev = PDelete i \<and> pgoroutines pb ! i = PDeleting k)) \<and>
   (pstep (PLookup j t) pb = Some pb' \<longrightarrow> pgoroutines pb ! j = PSpawned k \<longrightarrow>
      (pgoroutines pb' ! j = PDeleting k) =
      (\<exists>item. prices (pcache pb) k = Some item \<and> IsExpired t item)) \<and>
   (pstep (PFetch j t) pb = Some pb' \<longrightarrow> pgoroutines pb ! j = PFetching k \<longrightarrow>
      (k \<in> dom (prices (pcache pb'))) =
      (k \<in> dom (prices (pcache pb)) \<or>
       (\<exists>p. invoked (pcache pb') = invoked (pcache pb) @ [(k, p, None)]))) \<and>
   (pstep (PLookup j t) pb = Some pbl \<longrightarrow> pstep (PDelete j) pbl = Some pbd \<longrightarrow>
      pstep (PFetch j t') pbd = Some pbf \<longrightarrow> pgoroutines pb ! j = PSpawned k \<longrightarrow>
      pcache pbf = snd (GetPriceFor_purging t t' k (pcache pb)))"
proof (intro conjI impI)
  show "dom (prices c) \<subseteq> dom (prices (snd (GetPriceFor now now' k c)))"
    by (rule GetPriceFor_dom [of now now' k c "fst (GetPriceFor now now' k c)"]) simp
next
  assume "GetPricesFor sched codes c = Some b"
  then have "exec sched (spawn codes c) = Some b" by (simp add: GetPricesFor_def)
  from exec_dom [OF this] show "dom (prices c) \<subseteq> dom (prices (cache b))"
    by (simp add: spawn_def)
next
  assume "GetPriceFor_purging now now' k c = (r, c')"
  then show "dom (prices c) - {k} \<subseteq> dom (prices c')"
    by (rule GetPriceFor_purging_keeps_others)
next
  assume "GetPriceFor_purging now now' k c = (r, c')" "k \<in> dom (prices c)"
  then show "(k \<notin> dom (prices c')) =
         (\<exists>item p e. prices c k = Some item \<and> IsExpired now item \<and>
            invoked c' = invoked c @ [(k, p, Some e)])"
    by (rule GetPriceFor_purging_removes_iff)
next
  assume "pstep ev pb = Some pb'" "k \<in> dom (prices (pcache pb))"
  then show "(k \<notin> dom (prices (pcache pb'))) =
      (\<exists>i. ev = PDelete i \<and> pgoroutines pb ! i = PDeleting k)"
    by (rule pstep_removes_iff)
next
  assume "pstep (PLookup j t) pb = Some pb'" "pgoroutines pb ! j = PSpawned k"
  then show "(pgoroutines pb' ! j = PDeleting k) =
      (\<exists>item. prices (pcache pb) k = Some item \<and> IsExpired t item)"
    by (rule pstep_deleting_iff)
next
  assume "pstep (PFetch j t) pb = Some pb'" "pgoroutines pb ! j = PFetching k"
  then show "(k \<in> dom (prices (pcache pb'))) =
      (k \<in> dom (prices (pcache pb)) \<or>
       (\<exists>p. invoked (pcache pb') = invoked (pcache pb) @ [(k, p, None)]))"
    by (rule pstep_stores_iff)
next
  assume "pstep (PLookup j t) pb = Some pbl" "pstep (PDelete j) pbl = Some pbd"
    "pstep (PFetch j t') pbd = Some pbf" "pgoroutines pb ! j = PSpawned k"
  then show "pcache pbf = snd (GetPriceFor_purging t t' k (pcache pb))"
    by (rule pstep_call_expired)
qed

theorem store_keys_kept_witness:
  "dom (prices stale_cache) \<subseteq> dom (prices (snd (GetPriceFor 5 6 ''p1'' stale_cache))) \<and>
   GetPricesFor [Run 0 5, Run 1 5, RecvRes 0 6, RecvErr 1] [''ok'', ''bad''] mixed_cache
     = Some mixed_final \<and>
   dom (prices mixed_cache) \<subseteq> dom (prices (cache mixed_final)) \<and>
   GetPriceFor_purging 5 6 ''p1'' stale_cache =
     ((0, Some ''getting item from service : boom''), purged) \<and>
   ''p1'' \<in> dom (prices stale_cache) \<and> ''p1'' \<notin> dom (prices purged) \<and>
   (\<exists>item p e. prices stale_cache ''p1'' = Some item \<and> IsExpired 5 item \<and>
      invoked purged = invoked stale_cache @ [(''p1'', p, Some e)]) \<and>
   pstep (PLookup 0 5) (pspawn [''p1''] stale_cache) = Some purge_looked \<and>
   pgoroutines (pspawn [''p1''] stale_cache) ! 0 = PSpawned ''p1'' \<and>
   pgoroutines purge_looked ! 0 = PDeleting ''p1'' \<and>
   pstep (PDelete 0) purge_looked = Some purge_deleted \<and>
   ''p1'' \<in> dom (prices (pcache purge_looked)) \<and>
   ''p1'' \<notin> dom (prices (pcache purge_deleted)) \<and>
   pstep (PFetch 0 6) purge_deleted = Some purge_failed \<and>
   pgoroutines purge_deleted ! 0 = PFetching ''p1'' \<and>
   ''p1'' \<notin> dom (prices (pcache purge_failed)) \<and>
   pcache purge_failed = snd (GetPriceFor_purging 5 6 ''p1'' stale_cache)"
proof -
  have purge: "GetPriceFor_purging 5 6 ''p1'' stale_cache =
     ((0, Some ''getting item from service : boom''), purged)"
    by (simp add: ex_defs GetPriceFor_purging_def purged_def)
  have inb: "''p1'' \<in> dom (prices stale_cache)" by (simp add: stale_cache_def)
  have out: "''p1'' \<notin> dom (prices purged)" by (simp add: purged_def)
  have look: "pstep (PLookup 0 5) (pspawn [''p1''] stale_cache) = Some purge_looked"
    by (simp add: pspawn_def pended_def lookupInGoroutine_def purge_looked_def
        stale_cache_def IsExpired_def)
  have sp: "pgoroutines (pspawn [''p1''] stale_cache) ! 0 = PSpawned ''p1''"
    by (simp add: pspawn_def)
  have del: "pstep (PDelete 0) purge_looked = Some purge_deleted"
    by (simp add: pended_def purge_looked_def purge_deleted_def stale_cache_def)
  have inl: "''p1'' \<in> dom (prices (pcache purge_looked))"
    by (simp add: purge_looked_def stale_cache_def)
  have fetch: "pstep (PFetch 0 6) purge_deleted = Some purge_failed"
    by (simp add: pended_def storeInGoroutine_def purge_deleted_def purge_failed_def
        purged_def ex_defs)
  have fe: "pgoroutines purge_deleted ! 0 = PFetching ''p1''"
    by (simp add: purge_deleted_def)
  note single = store_keys_kept [where c = stale_cache and now = 5 and now' = 6
      and k = "''p1''" and r = "(0, Some ''getting item from service : boom'')"
      and c' = purged and ev = "PDelete 0" and pb = purge_looked
      and pb' = purge_deleted]
  note batch = store_keys_kept [where c = mixed_cache
      and sched = "[Run 0 5, Run 1 5, RecvRes 0 6, RecvErr 1]"
      and codes = "[''ok'', ''bad'']" and b = mixed_final]
  note looked = store_keys_kept [where k = "''p1''" and j = 0 and t = 5 and t' = 6
      and pb = "pspawn [''p1''] stale_cache" and pb' = purge_looked and pbl = purge_looked
      and pbd = purge_deleted and pbf = purge_failed]
  note fetched = store_keys_kept [where k = "''p1''" and j = 0 and t = 6
      and pb = purge_deleted and pb' = purge_failed]
  note c1 = single [THEN conjunct1]
  note c2 = batch [THEN conjunct2, THEN conjunct1, rule_format, OF mixed_run]
  note c3 = single [THEN conjunct2, THEN conjunct2, THEN conjunct1, rule_format, OF purge]
  note c4 = single [THEN conjunct2, THEN conjunct2, THEN conjunct2, THEN conjunct1,
      rule_format, OF del inl]
  note c5 = looked [THEN conjunct2, THEN conjunct2, THEN conjunct2, THEN conjunct2,
      THEN conjunct1, rule_format, OF look sp]
  note c6 = fetched [THEN conjunct2, THEN conjunct2, THEN conjunct2, THEN conjunct2,
      THEN conjunct2, THEN conjunct1, rule_format, OF fetch fe]
  note c7 = looked [THEN conjunct2, THEN conjunct2, THEN conjunct2, THEN conjunct2,
      THEN conjunct2, THEN conjunct2, rule_format, OF look del fetch sp]
  from c3 [THEN conjunct2, rule_format, OF inb] out
  have c: "\<exists>item p e. prices stale_cache ''p1'' = Some item \<and> IsExpired 5 item \<and>
      invoked purged = invoked stale_cache @ [(''p1'', p, Some e)]"
    by simp
  have "\<exists>i. PDelete 0 = PDelete i \<and> pgoroutines purge_looked ! i = PDeleting ''p1''"
    by (simp add: purge_looked_def)
  with c4 have d: "''p1'' \<notin> dom (prices (pcache purge_deleted))" by simp
  have "\<exists>item. prices (pcache (pspawn [''p1''] stale_cache)) ''p1'' = Some item \<and>
      IsExpired 5 item"
    by (simp add: pspawn_def stale_cache_def IsExpired_def)
  with c5 have lk: "pgoroutines purge_looked ! 0 = PDeleting ''p1''" by simp
  have "\<not> (''p1'' \<in> dom (prices (pcache purge_deleted)) \<or>
       (\<exists>p. invoked (pcache purge_failed) =
          invoked (pcache purge_deleted) @ [(''p1'', p, None)]))"
    by (simp add: purge_deleted_def purge_failed_def purged_def stale_cache_def)
  with c6 have e: "''p1'' \<notin> dom (prices (pcache purge_failed))" by simp
  from c7 have f': "pcache purge_failed = snd (GetPriceFor_purging 5 6 ''p1'' stale_cache)"
    by (simp add: pspawn_def)
  show ?thesis
    using c1 mixed_run c2 purge inb out c look sp lk del inl d fetch fe e f'
    by (intro conjI)
qed

subsection \<open>Expiration\<close>

text \<open>
  The claim says that an item is served only while the clock is strictly before its
  expiration, and that the expiration is the instant of the last successful fetch plus
  \<open>maxAge\<close>. At the instant \<open>100\<close> the item of \<open>p1\<close> that expires at \<open>100\<close> is
  served. And a batch that finds \<open>p1\<close> fresh at \<open>50\<close> moves its expiration from
  \<open>100\<close> to \<open>1060\<close>, though the collaborator was never asked.
\<close>

theorem expiration_invariant_counterexample:
  "prices warm_cache ''p1'' = Some \<lparr>Price = 10, Expiration = 100\<rparr> \<and>
   \<not> (100 :: 64 word) <s 100 \<and>
   GetPriceFor 100 101 ''p1'' warm_cache = ((10, None), warm_cache) \<and>
   GetPricesFor [Run 0 50, RecvRes 0 60] [''p1''] warm_cache = Some hit_received \<and>
   prices (cache hit_received) ''p1'' = Some \<lparr>Price = 10, Expiration = 1060\<rparr> \<and>
   invoked (cache hit_received) = []"
  by (simp add: batch_defs ex_defs hit_received_def)

text \<open>Serving from the map: exactly up to and including the expiration.\<close>

lemma GetPriceFor_served_iff:
  assumes "prices c k = Some item"
  shows "(invoked (snd (GetPriceFor now now' k c)) = invoked c) =
         (sint now \<le> sint (Expiration item))"
proof (cases "IsExpired now item")
  case False
  with assms show ?thesis
    by (simp add: GetPriceFor_hit IsExpired_def word_sless_alt)
next
  case True
  obtain r c' where f: "fetchPrice now' k c = (r, c')" by fastforce
  then have "invoked c' \<noteq> invoked c" by (cases rule: fetchPrice_cases) simp_all
  with True assms f show ?thesis
    by (simp add: GetPriceFor_expired IsExpired_def word_sless_alt)
qed

lemma runGoroutine_served_iff:
  assumes "prices c k = Some item"
  shows "(runGoroutine now k c = (AtHitSend k (Price item), c)) =
         (sint now \<le> sint (Expiration item))"
proof (cases "IsExpired now item")
  case False
  with assms show ?thesis
    by (simp add: runGoroutine_def IsExpired_def word_sless_alt)
next
  case True
  obtain g c' where f: "fetchInGoroutine k c = (g, c')" by fastforce
  then have "g \<noteq> AtHitSend k (Price item)" by (cases rule: fetchInGoroutine_cases) simp_all
  with True assms f show ?thesis
    by (simp add: runGoroutine_def IsExpired_def word_sless_alt)
qed

text \<open>Writing to the map in \<open>GetPriceFor\<close>: exactly after a successful answer.\<close>

lemma GetPriceFor_stores:
  assumes "GetPriceFor now now' k c = (r, c')"
    and "invoked c' = invoked c @ [(k, p, None)]"
  shows "prices c' = (prices c)(k \<mapsto> \<lparr>Price = p, Expiration = now' + maxAge c\<rparr>)"
  using assms(1)
proof (cases rule: GetPriceFor_cases)
  case (hit item)
  with assms(2) show ?thesis by simp
next
  case miss
  from miss(1) show ?thesis
  proof (cases rule: fetchPrice_cases)
    case (fail q e)
    with assms(2) show ?thesis by simp
  next
    case (ok q)
    with assms(2) show ?thesis by simp
  qed
qed

lemma GetPriceFor_keeps:
  assumes "GetPriceFor now now' k c = (r, c')"
    and "\<forall>q. invoked c' \<noteq> invoked c @ [(k, q, None)]"
  shows "prices c' = prices c"
  using assms(1)
proof (cases rule: GetPriceFor_cases)
  case (hit item)
  then show ?thesis by simp
next
  case miss
  from miss(1) show ?thesis
  proof (cases rule: fetchPrice_cases)
    case (fail q e)
    then show ?thesis by simp
  next
    case (ok q)
    with assms(2) show ?thesis by simp
  qed
qed

text \<open>Writing to the map in a batch: the loop stores a fetched price on receipt, and the
  steps that are not receipts do not write.\<close>

lemma step_stores_fetched:
  assumes "step (RecvRes i t) b = Some b'" and "goroutines b ! i = AtResSend k p"
  shows "prices (cache b') =
         (prices (cache b))(k \<mapsto> \<lparr>Price = p, Expiration = t + maxAge (cache b)\<rparr>)"
proof -
  from assms(1) obtain code price where "sending (goroutines b ! i) = Some (code, price)"
    "b' = receiveResult t code price (b\<lparr>goroutines := (goroutines b)[i := Finished]\<rparr>)"
    by (rule step_RecvRes)
  with assms(2) show ?thesis by (simp add: receiveResult_fields)
qed

lemma step_keeps:
  assumes "step ev b = Some b'" and "\<forall>i t. ev \<noteq> RecvRes i t"
  shows "prices (cache b') = prices (cache b)"
  using step_prices [OF assms(1)] assms(2) by blast

text \<open>
  In a cache that has been filled by calls of \<open>GetPriceFor\<close>, every item expires at the
  instant at which the last successful answer for its key was stored, plus \<open>maxAge\<close>.
\<close>

lemma serve_invariant:
  assumes "serve calls c fetchedAt = (c', fetchedAt')"
    and "\<forall>k item. prices c k = Some item \<longrightarrow>
           (\<exists>t. fetchedAt k = Some t \<and> Expiration item = t + maxAge c)"
  shows "maxAge c' = maxAge c \<and>
         (\<forall>k item. prices c' k = Some item \<longrightarrow>
           (\<exists>t. fetchedAt' k = Some t \<and> Expiration item = t + maxAge c))"
  using assms
proof (induction calls arbitrary: c fetchedAt)
  case Nil
  then show ?case by simp
next
  case (Cons call calls)
  obtain now now' key where call: "call = (now, now', key)" by (cases call)
  obtain r c1 where g: "GetPriceFor now now' key c = (r, c1)" by fastforce
  define fa where "fa = (if snd r = None \<and> length (invoked c) < length (invoked c1)
      then fetchedAt(key \<mapsto> now') else fetchedAt)"
  from Cons.prems(1) call g have rest: "serve calls c1 fa = (c', fetchedAt')"
    by (simp add: fa_def)
  from g have step: "maxAge c1 = maxAge c \<and>
      (\<forall>k item. prices c1 k = Some item \<longrightarrow>
         (\<exists>t. fa k = Some t \<and> Expiration item = t + maxAge c))"
  proof (cases rule: GetPriceFor_cases)
    case (hit item)
    with Cons.prems(2) show ?thesis by (simp add: fa_def)
  next
    case miss
    from miss(1) show ?thesis
    proof (cases rule: fetchPrice_cases)
      case (fail p e)
      with Cons.prems(2) show ?thesis by (simp add: fa_def)
    next
      case (ok p)
      with Cons.prems(2) show ?thesis by (simp add: fa_def)
    qed
  qed
  then have age: "maxAge c1 = maxAge c" by simp
  from step have "\<forall>k item. prices c1 k = Some item \<longrightarrow>
      (\<exists>t. fa k = Some t \<and> Expiration item = t + maxAge c1)"
    by (simp add: age)
  from Cons.IH [OF rest this] age show ?case by simp
qed

text \<open>
  Claim C5, amended. In a cache filled by calls of \<open>GetPriceFor\<close>, the expiration of
  every stored item is the instant at which the last successful answer of the
  collaborator for its key was stored, plus \<open>maxAge\<close>: a call writes the entry of its
  key, with the clock reading of the write plus \<open>maxAge\<close>, exactly when the collaborator
  has answered it, and writes nothing otherwise. In a batch the loop stores a fetched
  price with the clock reading of the receipt plus \<open>maxAge\<close>, and the steps that are not
  receipts write nothing. A stored item is served, by \<open>GetPriceFor\<close> and by the
  goroutines of a batch, exactly when the clock reading is at most its expiration. The
  sums are those of \<^verbatim>\<open>int64\<close>.
\<close>

theorem expiration_after_fetch:
  "(serve calls (NewTransparentCache svc age) Map.empty = (c, fetchedAt) \<longrightarrow>
      prices c k = Some item \<longrightarrow>
      (\<exists>t. fetchedAt k = Some t \<and> Expiration item = t + age)) \<and>
   (GetPriceFor now now' k c = (r, c') \<longrightarrow> invoked c' = invoked c @ [(k, p, None)] \<longrightarrow>
      prices c' = (prices c)(k \<mapsto> \<lparr>Price = p, Expiration = now' + maxAge c\<rparr>)) \<and>
   (GetPriceFor now now' k c = (r, c') \<longrightarrow> (\<forall>q. invoked c' \<noteq> invoked c @ [(k, q, None)]) \<longrightarrow>
      prices c' = prices c) \<and>
   (step (RecvRes i t) b = Some b' \<longrightarrow> goroutines b ! i = AtResSend k p \<longrightarrow>
      prices (cache b') =
      (prices (cache b))(k \<mapsto> \<lparr>Price = p, Expiration = t + maxAge (cache b)\<rparr>)) \<and>
   (step ev b = Some b' \<longrightarrow> (\<forall>i t. ev \<noteq> RecvRes i t) \<longrightarrow>
      prices (cache b') = prices (cache b)) \<and>
   (prices c k = Some old \<longrightarrow>
      (invoked (snd (GetPriceFor now now' k c)) = invoked c) =
      (sint now \<le> sint (Expiration old))) \<and>
   (prices c k = Some old \<longrightarrow>
      (runGoroutine now k c = (AtHitSend k (Price old), c)) =
      (sint now \<le> sint (Expiration old)))"
proof (intro conjI impI)
  assume "serve calls (NewTransparentCache svc age) Map.empty = (c, fetchedAt)"
    and "prices c k = Some item"
  with serve_invariant [of calls "NewTransparentCache svc age" Map.empty c fetchedAt]
  show "\<exists>t. fetchedAt k = Some t \<and> Expiration item = t + age"
    by (simp add: NewTransparentCache_def)
next
  assume "GetPriceFor now now' k c = (r, c')" "invoked c' = invoked c @ [(k, p, None)]"
  then show "prices c' = (prices c)(k \<mapsto> \<lparr>Price = p, Expiration = now' + maxAge c\<rparr>)"
    by (rule GetPriceFor_stores)
next
  assume "GetPriceFor now now' k c = (r, c')" "\<forall>q. invoked c' \<noteq> invoked c @ [(k, q, None)]"
  then show "prices c' = prices c" by (rule GetPriceFor_keeps)
next
  assume "step (RecvRes i t) b = Some b'" "goroutines b ! i = AtResSend k p"
  then show "prices (cache b') =
      (prices (cache b))(k \<mapsto> \<lparr>Price = p, Expiration = t + maxAge (cache b)\<rparr>)"
    by (rule step_stores_fetched)
next
  assume "step ev b = Some b'" "\<forall>i t. ev \<noteq> RecvRes i t"
  then show "prices (cache b') = prices (cache b)" by (rule step_keeps)
next
  assume "prices c k = Some old"
  then show "(invoked (snd (GetPriceFor now now' k c)) = invoked c) =
      (sint now \<le> sint (Expiration old))"
    by (rule GetPriceFor_served_iff)
next
  assume "prices c k = Some old"
  then show "(runGoroutine now k c = (AtHitSend k (Price old), c)) =
      (sint now \<le> sint (Expiration old))"
    by (rule runGoroutine_served_iff)
qed

theorem expiration_after_fetch_witness:
  "serve [(5, 6, ''p2''), (100, 101, ''p2'')] (NewTransparentCache svc_ten 1000) Map.empty
     = (ten_fetched, [''p2'' \<mapsto> 6]) \<and>
   prices ten_fetched ''p2'' = Some \<lparr>Price = 10, Expiration = 1006\<rparr> \<and>
   (\<exists>t. [''p2'' \<mapsto> (6 :: 64 word)] ''p2'' = Some t \<and> (1006 :: 64 word) = t + 1000) \<and>
   GetPriceFor 5 6 ''p2'' warm_cache = ((10, None), warmed) \<and>
   invoked warmed = invoked warm_cache @ [(''p2'', 10, None)] \<and>
   prices warmed =
     (prices warm_cache)(''p2'' \<mapsto> \<lparr>Price = 10, Expiration = 6 + maxAge warm_cache\<rparr>) \<and>
   GetPriceFor 5 6 ''p1'' stale_cache =
     ((0, Some ''getting item from service : boom''),
      stale_cache\<lparr>invoked := [(''p1'', 0, Some ''boom'')]\<rparr>) \<and>
   prices (stale_cache\<lparr>invoked := [(''p1'', 0, Some ''boom'')]\<rparr>) = prices stale_cache \<and>
   step (RecvRes 0 60) fetch_sent = Some fetch_received \<and>
   goroutines fetch_sent ! 0 = AtResSend ''p2'' 10 \<and>
   prices (cache fetch_received) =
     (prices (cache fetch_sent))(''p2'' \<mapsto>
        \<lparr>Price = 10, Expiration = 60 + maxAge (cache fetch_sent)\<rparr>) \<and>
   step (Run 0 50) (spawn [''p1''] warm_cache) = Some hit_sent \<and>
   prices (cache hit_sent) = prices (cache (spawn [''p1''] warm_cache)) \<and>
   prices warm_cache ''p1'' = Some \<lparr>Price = 10, Expiration = 100\<rparr> \<and>
   invoked (snd (GetPriceFor 100 101 ''p1'' warm_cache)) = invoked warm_cache \<and>
   invoked (snd (GetPriceFor 101 102 ''p1'' warm_cache)) \<noteq> invoked warm_cache \<and>
   runGoroutine 100 ''p1'' warm_cache = (AtHitSend ''p1'' 10, warm_cache) \<and>
   runGoroutine 101 ''p1'' warm_cache \<noteq> (AtHitSend ''p1'' 10, warm_cache)"
proof -
  have s1: "serve [(5, 6, ''p2''), (100, 101, ''p2'')] (NewTransparentCache svc_ten 1000) Map.empty
     = (ten_fetched, [''p2'' \<mapsto> 6])"
    by (simp add: ex_defs ten_cache_def ten_fetched_def)
  have s2: "prices ten_fetched ''p2'' = Some \<lparr>Price = 10, Expiration = 1006\<rparr>"
    by (simp add: ten_fetched_def)
  note t1 = expiration_after_fetch [where calls = "[(5, 6, ''p2''), (100, 101, ''p2'')]"
      and svc = svc_ten and age = 1000 and c = ten_fetched and fetchedAt = "[''p2'' \<mapsto> 6]"
      and k = "''p2''" and item = "\<lparr>Price = 10, Expiration = 1006\<rparr>",
      THEN conjunct1, rule_format, OF s1 s2]
  from t1 have s3: "\<exists>t. [''p2'' \<mapsto> (6 :: 64 word)] ''p2'' = Some t \<and> (1006 :: 64 word) = t + 1000"
    by simp
  have a1: "GetPriceFor 5 6 ''p2'' warm_cache = ((10, None), warmed)"
    by (simp add: ex_defs warmed_def)
  have a2: "invoked warmed = invoked warm_cache @ [(''p2'', 10, None)]"
    by (simp add: warmed_def warm_cache_def)
  note a3 = expiration_after_fetch [where c = warm_cache and k = "''p2''" and now = 5
      and now' = 6 and r = "(10, None)" and c' = warmed and p = 10,
      THEN conjunct2, THEN conjunct1, rule_format, OF a1 a2]
  have b1: "GetPriceFor 5 6 ''p1'' stale_cache =
     ((0, Some ''getting item from service : boom''),
      stale_cache\<lparr>invoked := [(''p1'', 0, Some ''boom'')]\<rparr>)"
    by (simp add: ex_defs)
  have b2: "invoked (stale_cache\<lparr>invoked := [(''p1'', 0, Some ''boom'')]\<rparr>) \<noteq>
      invoked stale_cache @ [(''p1'', q, None)]" for q
    by (simp add: stale_cache_def)
  note b3 = expiration_after_fetch [where c = stale_cache and k = "''p1''" and now = 5
      and now' = 6 and r = "(0, Some ''getting item from service : boom'')"
      and c' = "stale_cache\<lparr>invoked := [(''p1'', 0, Some ''boom'')]\<rparr>",
      THEN conjunct2, THEN conjunct2, THEN conjunct1, rule_format, OF b1 b2]
  have c1: "step (RecvRes 0 60) fetch_sent = Some fetch_received"
    by (simp add: fetch_sent_def fetch_received_def receiveResult_def planExpiration_def
        warm_cache_def ended_def Let_def)
  have c2: "goroutines fetch_sent ! 0 = AtResSend ''p2'' 10" by (simp add: fetch_sent_def)
  note c3 = expiration_after_fetch [where i = 0 and t = 60 and b = fetch_sent
      and b' = fetch_received and k = "''p2''" and p = 10,
      THEN conjunct2, THEN conjunct2, THEN conjunct2, THEN conjunct1, rule_format, OF c1 c2]
  have d1: "step (Run 0 50) (spawn [''p1''] warm_cache) = Some hit_sent"
    by (simp add: batch_defs ex_defs hit_sent_def)
  have d2: "Run 0 50 \<noteq> RecvRes i t" for i t by simp
  note d3 = expiration_after_fetch [where ev = "Run 0 50" and b = "spawn [''p1''] warm_cache"
      and b' = hit_sent,
      THEN conjunct2, THEN conjunct2, THEN conjunct2, THEN conjunct2, THEN conjunct1,
      rule_format, OF d1 d2]
  have e1: "prices warm_cache ''p1'' = Some \<lparr>Price = 10, Expiration = 100\<rparr>"
    by (simp add: warm_cache_def)
  note e2 = expiration_after_fetch [where c = warm_cache and k = "''p1''"
      and old = "\<lparr>Price = 10, Expiration = 100\<rparr>" and now = 100 and now' = 101,
      THEN conjunct2, THEN conjunct2, THEN conjunct2, THEN conjunct2, THEN conjunct2,
      THEN conjunct1, rule_format, OF e1]
  note e3 = expiration_after_fetch [where c = warm_cache and k = "''p1''"
      and old = "\<lparr>Price = 10, Expiration = 100\<rparr>" and now = 101 and now' = 102,
      THEN conjunct2, THEN conjunct2, THEN conjunct2, THEN conjunct2, THEN conjunct2,
      THEN conjunct1, rule_format, OF e1]
  note f2 = expiration_after_fetch [where c = warm_cache and k = "''p1''"
      and old = "\<lparr>Price = 10, Expiration = 100\<rparr>" and now = 100,
      THEN conjunct2, THEN conjunct2, THEN conjunct2, THEN conjunct2, THEN conjunct2,
      THEN conjunct2, rule_format, OF e1]
  note f3 = expiration_after_fetch [where c = warm_cache and k = "''p1''"
      and old = "\<lparr>Price = 10, Expiration = 100\<rparr>" and now = 101,
      THEN conjunct2, THEN conjunct2, THEN conjunct2, THEN conjunct2, THEN conjunct2,
      THEN conjunct2, rule_format, OF e1]
  from e2 have e2': "invoked (snd (GetPriceFor 100 101 ''p1'' warm_cache)) = invoked warm_cache"
    by simp
  from e3 have e3': "invoked (snd (GetPriceFor 101 102 ''p1'' warm_cache)) \<noteq> invoked warm_cache"
    by simp
  from f2 have f2': "runGoroutine 100 ''p1'' warm_cache = (AtHitSend ''p1'' 10, warm_cache)"
    by simp
  from f3 have f3': "runGoroutine 101 ''p1'' warm_cache \<noteq> (AtHitSend ''p1'' 10, warm_cache)"
    by simp
  show ?thesis
    using s1 s2 s3 a1 a2 a3 b1 b3 c1 c2 c3 d1 d3 e1 e2' e3' f2' f3'
    by (intro conjI)
qed

end
